theory Spec2Isabelle
  imports Main "HOL-Library.Word" "HOL-Library.Sublist"
begin

unbundle bit_operations_syntax

section \<open>The explorer server (explorer/server.cpp): embedding\<close>

text \<open>
  The server is single threaded: every callback runs to completion on the reactor's
  thread. Each callback is therefore a function from the server's state (and the
  outcome of the I/O it performs) to the new state. A C++ exception is the left
  summand of a sum type and carries the text of \<open>what()\<close>.
\<close>

type_synonym u8 = "8 word"
type_synonym u32 = "32 word"
type_synonym u64 = "64 word"
type_synonym i64 = "64 word"

type_synonym 'a exc = "string + 'a"

subsection \<open>C strings\<close>

text \<open>
  \<open>std::string::c_str()\<close> handed to a C API is read up to the first NUL;
  reading the buffer at or past its end yields the terminating NUL.
\<close>

definition NUL :: char where
  "NUL = CHR 0x00"

definition c_str :: "string \<Rightarrow> string" where
  "c_str s = takeWhile (\<lambda>c. c \<noteq> NUL) s"

definition c_at :: "string \<Rightarrow> nat \<Rightarrow> char" where
  "c_at s k = (if k < length s then s ! k else NUL)"

subsection \<open>IPAccessControl\<close>

record IPAccessControl =
  enabled :: bool
  ipsFileName :: string
  lastModified :: int
  ips :: "u32 set"

text \<open>
  The file system as \<open>refresh\<close> sees it: a path has a modification time and a
  content, or \<open>last_write_time\<close> throws (\<open>None\<close>).
\<close>

type_synonym filesys = "string \<Rightarrow> (int \<times> string) option"

text \<open>\<open>std::getline\<close> until it fails: the lines of the content, split at newlines.\<close>

fun getlines :: "string \<Rightarrow> string \<Rightarrow> string list" where
  "getlines cur [] = (if cur = [] then [] else [cur])"
| "getlines cur (c # cs) =
     (if c = CHR 0x0A then cur # getlines [] cs else getlines (cur @ [c]) cs)"

text \<open>\<open>boost::algorithm::trim\<close> with the classic locale's \<open>isspace\<close>.\<close>

definition is_space :: "char \<Rightarrow> bool" where
  "is_space c = (c = CHR '' '' \<or> c = CHR 0x09 \<or> c = CHR 0x0A \<or> c = CHR 0x0B
     \<or> c = CHR 0x0C \<or> c = CHR 0x0D)"

definition trim :: "string \<Rightarrow> string" where
  "trim s = rev (dropWhile is_space (rev (dropWhile is_space s)))"

text \<open>
  The body of the \<open>while (std::getline(file, line))\<close> loop. \<open>resolve\<close> is
  \<open>io::Address::resolve\<close> followed by \<open>ip()\<close>; it is not part of this file
  and is a parameter.
\<close>

fun read_lines :: "(string \<Rightarrow> u32 option) \<Rightarrow> string list \<Rightarrow> u32 set \<Rightarrow> u32 set" where
  "read_lines resolve [] s = s"
| "read_lines resolve (ln # rest) s =
     (let line = trim ln in
      if length line < 7 then read_lines resolve rest s
      else (case resolve (c_str line) of
              Some a \<Rightarrow> read_lines resolve rest (insert a s)
            | None \<Rightarrow> read_lines resolve rest s))"

definition refresh :: "(string \<Rightarrow> u32 option) \<Rightarrow> filesys \<Rightarrow> IPAccessControl \<Rightarrow> IPAccessControl" where
  "refresh resolve fs a =
     (if \<not> enabled a then a
      else (case fs (ipsFileName a) of
              None \<Rightarrow> a
            | Some (t, content) \<Rightarrow>
                if t \<le> lastModified a then a
                else a\<lparr>lastModified := t,
                       ips := read_lines resolve (getlines [] content) (ips a)\<rparr>))"

definition IPAccessControl_ctor :: "(string \<Rightarrow> u32 option) \<Rightarrow> filesys \<Rightarrow> string \<Rightarrow> IPAccessControl" where
  "IPAccessControl_ctor resolve fs fileName =
     refresh resolve fs
       \<lparr>enabled = (fileName \<noteq> []), ipsFileName = fileName, lastModified = 0, ips = {}\<rparr>"

text \<open>\<open>localhostIP\<close> is \<open>io::Address::localhost().ip()\<close>, a parameter.\<close>

definition check :: "u32 \<Rightarrow> IPAccessControl \<Rightarrow> u32 \<Rightarrow> bool" where
  "check localhostIP a peerIP =
     (if \<not> enabled a \<or> peerIP = localhostIP then True else peerIP \<in> ips a)"

text \<open>The addresses a file content yields: what the claim calls its valid lines.\<close>

definition resolved_ips :: "(string \<Rightarrow> u32 option) \<Rightarrow> string \<Rightarrow> u32 set" where
  "resolved_ips resolve content =
     {a. \<exists>ln \<in> set (getlines [] content).
           7 \<le> length (trim ln) \<and> resolve (c_str (trim ln)) = Some a}"

text \<open>A resolver for two dotted addresses, to run the model on.\<close>

definition resolve2 :: "string \<Rightarrow> u32 option" where
  "resolve2 s = (if s = ''10.0.0.1'' then Some 0x0A000001
                 else if s = ''10.0.0.2'' then Some 0x0A000002 else None)"

definition content1 :: string where
  "content1 = ''10.0.0.1'' @ [CHR 0x0A]"

definition content2 :: string where
  "content2 = ''  10.0.0.2 '' @ [CHR 0x0A] @ ''bad'' @ [CHR 0x0A]"

definition fs1 :: filesys where
  "fs1 p = (if p = ''acl.txt'' then Some (100, content1) else None)"

definition fs2 :: filesys where
  "fs2 p = (if p = ''acl.txt'' then Some (200, content2) else None)"

definition acl1 :: IPAccessControl where
  "acl1 = IPAccessControl_ctor resolve2 fs1 ''acl.txt''"

subsection \<open>Printing integers\<close>

text \<open>\<open>operator<<\<close> and \<open>std::to_string\<close> on integers: decimal digits.\<close>

definition digit_char :: "nat \<Rightarrow> char" where
  "digit_char n = ''0123456789'' ! n"

fun show_nat :: "nat \<Rightarrow> string" where
  "show_nat n = (if n < 10 then [digit_char n] else show_nat (n div 10) @ [digit_char (n mod 10)])"

declare show_nat.simps [simp del]

definition show_int :: "int \<Rightarrow> string" where
  "show_int i = (if i < 0 then CHR ''-'' # show_nat (nat (- i)) else show_nat (nat i))"

subsection \<open>The document tree (nlohmann::json)\<close>

text \<open>
  \<open>JInt\<close> is \<open>number_integer\<close> (an \<open>int64_t\<close>, read with \<open>sint\<close>), \<open>JUInt\<close> is
  \<open>number_unsigned\<close>. A \<open>double\<close> is opaque: its conversions are parameters.
  An object lists its members in iteration order.
\<close>

typedecl jfloat

datatype json = JNull | JBool bool | JInt i64 | JUInt u64 | JFloat jfloat | JStr string
  | JArr "json list" | JObj "(string \<times> json) list"

text \<open>\<open>obj.find(key)\<close> on an object.\<close>

definition find_key :: "(string \<times> json) list \<Rightarrow> string \<Rightarrow> json option" where
  "find_key kvs k = map_of kvs k"

text \<open>Assignment through the iterator \<open>find\<close> returned.\<close>

fun assign_key :: "string \<Rightarrow> json \<Rightarrow> (string \<times> json) list \<Rightarrow> (string \<times> json) list" where
  "assign_key k v [] = []"
| "assign_key k v ((k', v') # rest) =
     (if k' = k then (k', v) # rest else (k', v') # assign_key k v rest)"

text \<open>The number of nodes on the longest path from the root: a scalar has depth 1.\<close>

fun depth :: "json \<Rightarrow> nat" where
  "depth (JArr xs) = Suc (foldr max (map depth xs) 0)"
| "depth (JObj kvs) = Suc (foldr max (map (\<lambda>(k, v). depth v) kvs) 0)"
| "depth j = 1"

text \<open>An array nested \<open>n\<close> levels around a null.\<close>

fun nest :: "nat \<Rightarrow> json" where
  "nest 0 = JNull"
| "nest (Suc n) = JArr [nest n]"

subsection \<open>Routes, URL arguments and backend queries\<close>

text \<open>\<open>DirType\<close>: \<open>Unused\<close>, then one value for each \<open>OnRequest(dir)\<close> of this file.\<close>

datatype DirType = Unused | status | block | blocks | hdrs | peers | swap_offers
  | swap_totals | contracts | contract | asset | assets

record HttpUrl =
  dir :: DirType
  args :: "string \<Rightarrow> string option"

datatype Mode = AutoHtml | ExplicitType | Legacy

text \<open>The enumerators of \<open>IAdapter::TotalsCol\<close> that \<open>on_request_hdrs\<close> names.\<close>

datatype TotalsCol = Hash_Abs
  | Time_Abs | Time_Rel | Age_Abs | Age_Rel | Difficulty_Abs | Difficulty_Rel
  | Fee_Abs | Fee_Rel | Kernels_Abs | Kernels_Rel | MwOutputs_Abs | MwOutputs_Rel
  | MwInputs_Abs | MwInputs_Rel | MwUtxos_Abs | MwUtxos_Rel | ShOutputs_Abs | ShOutputs_Rel
  | ShInputs_Abs | ShInputs_Rel | ContractsActive_Abs | ContractsActive_Rel
  | ContractCalls_Abs | ContractCalls_Rel | SizeCompressed_Abs | SizeCompressed_Rel
  | SizeArchive_Abs | SizeArchive_Rel

text \<open>The calls a handler makes on the backend (\<open>IAdapter\<close>), with their arguments.\<close>

datatype Query = get_status
  | get_block i64
  | get_block_by_kernel "u8 list"
  | get_blocks i64 i64
  | get_hdrs u64 u32 u64 "TotalsCol list"
  | get_peers
  | get_swap_offers
  | get_swap_totals
  | get_contracts
  | get_contract_details "u8 list" u64 u64 u32
  | get_asset_details u32 u64 u64 u32
  | get_assets_at i64

subsection \<open>What this file takes from the rest of the repository\<close>

text \<open>
  \<^item> \<open>ScanDecimal\<close>: \<open>AmountBig::Number::ScanDecimal\<close>, the number of characters
    consumed and the number read;
  \<^item> \<open>Print\<close>: \<open>AmountBig::Print(os, val, false)\<close>;
  \<^item> \<open>float_u64\<close>, \<open>float_u32\<close>, \<open>float_str\<close>: a \<open>double\<close> cast to
    \<open>uint64_t\<close>, to \<open>uint32_t\<close>, and written to a stream;
  \<^item> \<open>parse_int\<close>: the integer an argument's text parses to, for \<open>get_int_arg\<close>;
  \<^item> \<open>hash_bytes\<close>: the size of \<open>ECC::Hash::Value\<close>;
  \<^item> \<open>extra_cols\<close>: the enumerators of \<open>IAdapter::TotalsCol\<close> before \<open>count\<close>
    beyond the 29 this file names;
  \<^item> \<open>serialize_json_msg\<close>: the serializer of \<open>json2Msg\<close>, \<open>None\<close> when it fails;
  \<^item> \<open>resolve_addr\<close>: \<open>io::Address::resolve\<close>; \<open>localhost_ip\<close>:
    \<open>io::Address::localhost().ip()\<close>;
  \<^item> \<open>parse_url\<close>: \<open>HttpUrl::parse(path, m_Dirs)\<close>, \<open>None\<close> when it returns false;
  \<^item> \<open>backend\<close>: the \<open>IAdapter\<close>, which answers a query in the mode the server
    has set, or throws.
\<close>

record ext =
  ScanDecimal :: "string \<Rightarrow> nat \<times> nat"
  Print :: "nat \<Rightarrow> string"
  float_u64 :: "jfloat \<Rightarrow> u64"
  float_u32 :: "jfloat \<Rightarrow> u32"
  float_str :: "jfloat \<Rightarrow> string"
  parse_int :: "string \<Rightarrow> i64 option"
  hash_bytes :: u32
  extra_cols :: nat
  serialize_json_msg :: "json \<Rightarrow> string option"
  resolve_addr :: "string \<Rightarrow> u32 option"
  localhost_ip :: u32
  parse_url :: "string \<Rightarrow> HttpUrl option"
  backend :: "Mode \<Rightarrow> Query \<Rightarrow> json exc"

subsection \<open>HtmlConverter: helpers\<close>

definition dq :: string where
  "dq = [CHR 0x22]"

definition nl :: string where
  "nl = [CHR 0x0A]"

definition get_ShortOf :: "string \<Rightarrow> nat \<Rightarrow> string" where
  "get_ShortOf s nMaxChars =
     (if length s \<le> nMaxChars + 4 - 1 then s else take nMaxChars s @ ''...'')"

definition szSubst :: "char \<Rightarrow> string option" where
  "szSubst ch = (if ch = CHR ''<'' then Some ''&#60;''
                 else if ch = CHR ''>'' then Some ''&#62;''
                 else if ch = CHR ''&'' then Some ''&#38;'' else None)"

text \<open>The loop of \<open>Encode\<close>: \<open>i\<close> is the index of the head of the rest of \<open>s\<close>.\<close>

fun Encode_loop :: "string \<Rightarrow> nat \<Rightarrow> string \<Rightarrow> string \<Rightarrow> string" where
  "Encode_loop s i [] sRet = sRet"
| "Encode_loop s i (ch # cs) sRet =
     (case szSubst ch of
        Some sub \<Rightarrow> Encode_loop s (i + 1) cs ((if sRet = [] then take i s else sRet) @ sub)
      | None \<Rightarrow> Encode_loop s (i + 1) cs (if sRet \<noteq> [] then sRet @ [ch] else sRet))"

definition Encode :: "string \<Rightarrow> string" where
  "Encode s = (let sRet = Encode_loop s 0 s [] in if sRet = [] then s else sRet)"

text \<open>
  \<open>ReadAmount\<close>: \<open>None\<close> is the result false; \<open>Some (res, chSign)\<close> is true with
  the two output parameters. \<open>get<uint64_t>()\<close> of a signed integer keeps its bits.
\<close>

definition ReadAmount :: "ext \<Rightarrow> json \<Rightarrow> (nat \<times> char) option" where
  "ReadAmount X objV =
     (case objV of
        JInt i \<Rightarrow> Some (unat i, NUL)
      | JUInt u \<Rightarrow> Some (unat u, NUL)
      | JFloat f \<Rightarrow> Some (unat (float_u64 X f), NUL)
      | JStr s \<Rightarrow>
          (let sz = c_str s;
               signed = (c_at sz 0 = CHR ''-'' \<or> c_at sz 0 = CHR ''+'');
               chSign = (if signed then c_at sz 0 else NUL);
               sz' = (if signed then tl sz else sz);
               (nLen, res) = ScanDecimal X sz'
           in if c_at sz' nLen = NUL then Some (res, chSign) else None)
      | _ \<Rightarrow> None)"

text \<open>\<open>if (chSign) os << chSign\<close>.\<close>

definition sign_str :: "char \<Rightarrow> string" where
  "sign_str chSign = (if chSign \<noteq> NUL then [chSign] else [])"

subsection \<open>SubstituteArg\<close>

text \<open>
  \<open>strncmp(a, b, n) == 0\<close>: the first \<open>n\<close> characters agree, or the two strings agree
  up to and including a NUL before that.
\<close>

fun strncmp_eq :: "string \<Rightarrow> string \<Rightarrow> nat \<Rightarrow> bool" where
  "strncmp_eq a b 0 = True"
| "strncmp_eq a b (Suc n) =
     (if c_at a 0 \<noteq> c_at b 0 then False
      else if c_at a 0 = NUL then True
      else strncmp_eq (tl a) (tl b) n)"

text \<open>
  The loop of \<open>SubstituteArg\<close>. \<open>rest\<close> is \<open>sUrl\<close> from index \<open>i\<close> on;
  \<open>len\<close> is \<open>iNext - i\<close>. The counters are \<open>uint32_t\<close>.
\<close>

definition seg_len :: "u32 \<Rightarrow> string \<Rightarrow> nat" where
  "seg_len iArg rest =
     (let sep = (if iArg \<noteq> 0 then CHR ''&'' else CHR ''?'')
      in if sep \<in> set rest then Suc (length (takeWhile (\<lambda>c. c \<noteq> sep) rest)) else length rest)"

definition seg_end :: "u32 \<Rightarrow> string \<Rightarrow> bool" where
  "seg_end iArg rest = ((if iArg \<noteq> 0 then CHR ''&'' else CHR ''?'') \<notin> set rest)"

function SubstituteArg_loop ::
  "string \<Rightarrow> string \<Rightarrow> u32 \<Rightarrow> string \<Rightarrow> u32 \<Rightarrow> bool \<Rightarrow> string \<times> u32 \<times> bool" where
  "SubstituteArg_loop sKey rest iArg sRes nArgs bHasSepAtEnd =
     (if rest = [] then (sRes, nArgs, bHasSepAtEnd)
      else if \<not> strncmp_eq rest sKey (length sKey)
      then SubstituteArg_loop sKey (drop (seg_len iArg rest) rest) (iArg + 1)
             (sRes @ take (seg_len iArg rest) rest) (nArgs + 1) (\<not> seg_end iArg rest)
      else SubstituteArg_loop sKey (drop (seg_len iArg rest) rest) (iArg + 1)
             sRes nArgs bHasSepAtEnd)"
  by pat_completeness auto
termination
  by (relation "measure (\<lambda>(sKey, rest, iArg, sRes, nArgs, b). length rest)")
     (auto simp: seg_len_def Let_def)

declare SubstituteArg_loop.simps [simp del]

definition SubstituteArg :: "string \<Rightarrow> string \<Rightarrow> string \<Rightarrow> string" where
  "SubstituteArg sUrl sKey' sVal =
     (let sKey = sKey' @ ''='';
          (sRes, nArgs, bHasSepAtEnd) = SubstituteArg_loop sKey sUrl 0 [] 0 False
      in (if \<not> bHasSepAtEnd then sRes @ (if nArgs \<noteq> 0 then ''&'' else ''?'') else sRes)
         @ sKey @ sVal)"

text \<open>The query string of a list of arguments: they are separated by \<open>&\<close>.\<close>

fun join_amp :: "string list \<Rightarrow> string" where
  "join_amp [] = []"
| "join_amp [a] = a"
| "join_amp (a # b # r) = a @ ''&'' @ join_amp (b # r)"

subsection \<open>jsonExp\<close>

text \<open>A loop whose body may throw: the first exception ends it.\<close>

fun seq_exc :: "'a exc list \<Rightarrow> 'a list exc" where
  "seq_exc [] = Inr []"
| "seq_exc (r # rs) =
     (case r of
        Inl e \<Rightarrow> Inl e
      | Inr v \<Rightarrow> (case seq_exc rs of Inl e \<Rightarrow> Inl e | Inr vs \<Rightarrow> Inr (v # vs)))"

text \<open>
  The part of \<open>jsonExp\<close> after the loop over an object's members: the members have
  been expanded in place, and \<open>kvs\<close> is the object as it stands then.
\<close>

definition exp_amount :: "ext \<Rightarrow> (string \<times> json) list \<Rightarrow> (string \<times> json) list" where
  "exp_amount X kvs =
     (case find_key kvs ''type'' of
        None \<Rightarrow> kvs
      | Some objT \<Rightarrow>
          (case find_key kvs ''value'' of
             None \<Rightarrow> kvs
           | Some objV \<Rightarrow>
               (case objT of
                  JStr sType \<Rightarrow>
                    if sType = ''amount'' then
                      (case ReadAmount X objV of
                         None \<Rightarrow> kvs
                       | Some (valBig, chSign) \<Rightarrow>
                           assign_key ''value'' (JStr (sign_str chSign @ Print X valBig)) kvs)
                    else kvs
                | _ \<Rightarrow> kvs)))"

text \<open>
  \<open>jsonExp\<close> changes the tree in place; the model returns the new tree, or the
  exception of \<open>Exc::Fail\<close>.
\<close>

fun jsonExp :: "ext \<Rightarrow> json \<Rightarrow> u32 \<Rightarrow> json exc" where
  "jsonExp X (JArr xs) nDepth =
     (if nDepth + 1 > 128 then Inl ''recursion too deep''
      else (case seq_exc (map (\<lambda>x. jsonExp X x (nDepth + 1)) xs) of
              Inl e \<Rightarrow> Inl e
            | Inr xs' \<Rightarrow> Inr (JArr xs')))"
| "jsonExp X (JObj kvs) nDepth =
     (if nDepth + 1 > 128 then Inl ''recursion too deep''
      else (case seq_exc (map (\<lambda>(k, v). case jsonExp X v (nDepth + 1) of
                                          Inl e \<Rightarrow> Inl e
                                        | Inr v' \<Rightarrow> Inr (k, v')) kvs) of
              Inl e \<Rightarrow> Inl e
            | Inr kvs' \<Rightarrow> Inr (JObj (exp_amount X kvs'))))"
| "jsonExp X obj nDepth =
     (if nDepth + 1 > 128 then Inl ''recursion too deep'' else Inr obj)"

text \<open>
  The expansion as the spec words it, written without the code's \<open>ReadAmount\<close>.
  An amount is a magnitude and an optional sign. A number is its own magnitude, read
  as an unsigned 64-bit integer, and has no sign. A string has a sign exactly when
  its first character is \<open>-\<close> or \<open>+\<close>, and the sign is that character; the rest of
  the string (the whole string when there is no sign) is scanned as decimal text, and
  the string parses when the scan leaves no character behind it.
\<close>

definition sign_spec :: "string \<Rightarrow> string" where
  "sign_spec t =
     (case t of
        [] \<Rightarrow> []
      | c # r \<Rightarrow> if c = CHR ''-'' \<or> c = CHR ''+'' then [c] else [])"

definition amount_spec :: "ext \<Rightarrow> json \<Rightarrow> (string \<times> nat) option" where
  "amount_spec X v =
     (case v of
        JInt i \<Rightarrow> Some ([], unat i)
      | JUInt u \<Rightarrow> Some ([], unat u)
      | JFloat f \<Rightarrow> Some ([], unat (float_u64 X f))
      | JStr s \<Rightarrow>
          (let t = c_str s;
               digits = drop (length (sign_spec t)) t;
               (nLen, n) = ScanDecimal X digits
           in if length digits \<le> nLen then Some (sign_spec t, n) else None)
      | _ \<Rightarrow> None)"

text \<open>
  Every node is visited; a node is an amount node when it is an object whose \<open>type\<close>
  is the string \<open>amount\<close> and whose \<open>value\<close> parses as an amount; the \<open>value\<close> of an
  amount node becomes the string of the sign (if any) and the printed magnitude;
  everything else stays as it is.
\<close>

definition amount_node :: "ext \<Rightarrow> (string \<times> json) list \<Rightarrow> (string \<times> nat) option" where
  "amount_node X kvs =
     (if find_key kvs ''type'' = Some (JStr ''amount'')
      then (case find_key kvs ''value'' of None \<Rightarrow> None | Some v \<Rightarrow> amount_spec X v)
      else None)"

fun expand_spec :: "ext \<Rightarrow> json \<Rightarrow> json" where
  "expand_spec X (JArr xs) = JArr (map (expand_spec X) xs)"
| "expand_spec X (JObj kvs) =
     (case amount_node X kvs of
        None \<Rightarrow> JObj (map (\<lambda>(k, v). (k, expand_spec X v)) kvs)
      | Some (sg, n) \<Rightarrow>
          JObj (assign_key ''value'' (JStr (sg @ Print X n))
                  (map (\<lambda>(k, v). (k, expand_spec X v)) kvs)))"
| "expand_spec X j = j"

subsection \<open>HtmlConverter\<close>

text \<open>
  The converter writes to \<open>m_os\<close> only; each function returns the text it appends,
  or the exception. \<open>OnObjSpecial\<close> returns \<open>None\<close> for false (it has written
  nothing then). \<open>tbl\<close> and \<open>d\<close> are \<open>m_Tbl\<close> and \<open>m_Depth\<close> at the call.
\<close>

definition aid_html :: "u32 \<Rightarrow> string" where
  "aid_html aid =
     (if aid \<noteq> 0
      then ''<a href = '' @ dq @ ''asset?htm=1&id='' @ show_nat (unat aid) @ dq @ ''>Asset-''
           @ show_nat (unat aid) @ ''</a>''
      else ''Beam'')"

definition amount_html :: "ext \<Rightarrow> nat \<Rightarrow> char \<Rightarrow> string" where
  "amount_html X valBig chSign =
     ''<p2 style='' @ dq @ ''color:''
     @ (if chSign = CHR ''-'' then ''red'' else if chSign = CHR ''+'' then ''green'' else ''blue'')
     @ dq @ ''>'' @ sign_str chSign @ Print X valBig @ ''</p2>''"

definition cid_html :: "string \<Rightarrow> string" where
  "cid_html s =
     (let sCid = Encode s
      in ''<a href = '' @ dq @ ''contract?htm=1&id='' @ sCid @ dq @ ''>cid-''
         @ get_ShortOf sCid 13 @ ''</a>'')"

text \<open>
  The loop over \<open>jMore\<close>. On anything but an object \<open>itArg.key()\<close> throws
  nlohmann's \<open>invalid_iterator\<close>; a null and an empty array have nothing to iterate.
\<close>

fun more_loop :: "ext \<Rightarrow> (string \<times> json) list \<Rightarrow> string \<Rightarrow> string" where
  "more_loop X [] sPath = sPath"
| "more_loop X ((k, vArg) # rest) sPath =
     more_loop X rest
       (SubstituteArg sPath k
          (case vArg of
             JStr s \<Rightarrow> Encode s
           | JInt i \<Rightarrow> show_nat (unat i)
           | JUInt u \<Rightarrow> show_nat (unat u)
           | JFloat f \<Rightarrow> show_nat (unat (float_u64 X f))
           | _ \<Rightarrow> []))"

definition more_html :: "ext \<Rightarrow> string \<Rightarrow> json option \<Rightarrow> string exc" where
  "more_html X url itMore =
     (case itMore of
        None \<Rightarrow> Inr []
      | Some jMore \<Rightarrow>
          (case (case jMore of
                   JObj members \<Rightarrow> Inr (more_loop X members url)
                 | JNull \<Rightarrow> Inr url
                 | JArr [] \<Rightarrow> Inr url
                 | _ \<Rightarrow> Inl ''[json.exception.invalid_iterator.207] cannot use key() for non-object iterators'') of
             Inl e \<Rightarrow> Inl e
           | Inr sPath \<Rightarrow> Inr (''<a href = '' @ dq @ sPath @ dq @ ''>More...'' @ ''</a>'')))"

lemma find_key_size:
  "find_key kvs k = Some v \<Longrightarrow> size v < Suc (size_list (size_prod (\<lambda>x. 0) size) kvs)"
  unfolding find_key_def by (induction kvs) (auto split: if_splits)

function (sequential) OnObjInternal :: "ext \<Rightarrow> string \<Rightarrow> u32 \<Rightarrow> u32 \<Rightarrow> json \<Rightarrow> string exc"
  and OnObjSpecial :: "ext \<Rightarrow> string \<Rightarrow> u32 \<Rightarrow> u32 \<Rightarrow> (string \<times> json) list \<Rightarrow> string option exc"
  and OnTableData :: "ext \<Rightarrow> string \<Rightarrow> u32 \<Rightarrow> u32 \<Rightarrow> json list \<Rightarrow> string exc"
  and OnTableRow :: "ext \<Rightarrow> string \<Rightarrow> u32 \<Rightarrow> u32 \<Rightarrow> nat \<Rightarrow> nat \<Rightarrow> json list \<Rightarrow> string exc"
  and OnMembers :: "ext \<Rightarrow> string \<Rightarrow> u32 \<Rightarrow> u32 \<Rightarrow> (string \<times> json) list \<Rightarrow> string exc"
  and OnElems :: "ext \<Rightarrow> string \<Rightarrow> u32 \<Rightarrow> u32 \<Rightarrow> nat \<Rightarrow> json list \<Rightarrow> string exc"
where
  "OnObjInternal X url tbl d (JObj kvs) =
     (if d + 1 > 128 then Inl ''recursion too deep''
      else (case OnObjSpecial X url tbl (d + 1) kvs of
              Inl e \<Rightarrow> Inl e
            | Inr (Some s) \<Rightarrow> Inr s
            | Inr None \<Rightarrow>
                (case OnMembers X url tbl (d + 1) kvs of
                   Inl e \<Rightarrow> Inl e
                 | Inr s \<Rightarrow> Inr (''<ul>'' @ s @ ''</ul>''))))"
| "OnObjInternal X url tbl d (JArr xs) =
     (if d + 1 > 128 then Inl ''recursion too deep''
      else (case OnElems X url tbl (d + 1) 0 xs of
              Inl e \<Rightarrow> Inl e
            | Inr s \<Rightarrow> Inr (''['' @ s @ '']'')))"
| "OnObjInternal X url tbl d (JStr s) =
     (if d + 1 > 128 then Inl ''recursion too deep'' else Inr (Encode s))"
| "OnObjInternal X url tbl d (JInt i) =
     (if d + 1 > 128 then Inl ''recursion too deep'' else Inr (show_int (sint i)))"
| "OnObjInternal X url tbl d (JUInt u) =
     (if d + 1 > 128 then Inl ''recursion too deep'' else Inr (show_nat (unat u)))"
| "OnObjInternal X url tbl d (JFloat f) =
     (if d + 1 > 128 then Inl ''recursion too deep'' else Inr (float_str X f))"
| "OnObjInternal X url tbl d (JBool b) =
     (if d + 1 > 128 then Inl ''recursion too deep''
      else Inr (if b then ''true'' else ''false''))"
| "OnObjInternal X url tbl d JNull =
     (if d + 1 > 128 then Inl ''recursion too deep'' else Inr [])"
| "OnObjSpecial X url tbl d kvs =
     (case find_key kvs ''type'' of
        None \<Rightarrow> Inr None
      | Some objT \<Rightarrow>
     (case find_key kvs ''value'' of
        None \<Rightarrow> Inr None
      | Some objV \<Rightarrow>
     (case objT of
        JStr sType \<Rightarrow>
          if sType = ''aid'' then
            (case objV of
               JInt i \<Rightarrow> Inr (Some (aid_html (ucast i)))
             | JUInt u \<Rightarrow> Inr (Some (aid_html (ucast u)))
             | JFloat f \<Rightarrow> Inr (Some (aid_html (float_u32 X f)))
             | _ \<Rightarrow> Inr None)
          else if sType = ''amount'' then
            (case ReadAmount X objV of
               None \<Rightarrow> Inr None
             | Some (valBig, chSign) \<Rightarrow> Inr (Some (amount_html X valBig chSign)))
          else if sType = ''cid'' then
            (case objV of
               JStr s \<Rightarrow> Inr (Some (cid_html s))
             | _ \<Rightarrow> Inr None)
          else if sType = ''th'' then
            (case objV of
               JStr s \<Rightarrow> Inr (Some (''<h3 align=center>'' @ Encode s @ ''</h3>''))
             | _ \<Rightarrow> Inr None)
          else if sType = ''group'' then
            (case objV of
               JArr rows \<Rightarrow>
                 (case OnTableData X url tbl d rows of
                    Inl e \<Rightarrow> Inl e
                  | Inr s \<Rightarrow>
                      Inr (Some (''<tr></tr><tr></tr><tr></tr>'' @ s @ ''<tr></tr><tr></tr><tr></tr>'')))
             | _ \<Rightarrow> Inr None)
          else if sType = ''table'' then
            (case objV of
               JArr rows \<Rightarrow>
                 (case OnTableData X url (tbl + 1) d rows of
                    Inl e \<Rightarrow> Inl e
                  | Inr s \<Rightarrow>
                      (case more_html X url (find_key kvs ''more'') of
                         Inl e \<Rightarrow> Inl e
                       | Inr m \<Rightarrow>
                           Inr (Some (''<table style='' @ dq @ ''width:100%'' @ dq @ ''>'' @ nl
                                      @ s @ ''</table>'' @ nl @ m))))
             | _ \<Rightarrow> Inr None)
          else Inr None
      | _ \<Rightarrow> Inr None)))"
| "OnTableData X url tbl d [] = Inr []"
| "OnTableData X url tbl d (x # rest) =
     (case (case x of
              JArr cells \<Rightarrow>
                (case OnTableRow X url tbl d (length cells) 0 cells of
                   Inl e \<Rightarrow> Inl e
                 | Inr s \<Rightarrow> Inr (''<tr>'' @ s @ ''</tr>'' @ nl))
            | _ \<Rightarrow> OnObjInternal X url tbl d x) of
        Inl e \<Rightarrow> Inl e
      | Inr s \<Rightarrow>
          (case OnTableData X url tbl d rest of
             Inl e \<Rightarrow> Inl e
           | Inr s' \<Rightarrow> Inr (s @ s')))"
| "OnTableRow X url tbl d n j [] = Inr []"
| "OnTableRow X url tbl d n j (c # cs) =
     (case OnObjInternal X url tbl d c of
        Inl e \<Rightarrow> Inl e
      | Inr s \<Rightarrow>
          (case OnTableRow X url tbl d n (j + 1) cs of
             Inl e \<Rightarrow> Inl e
           | Inr s' \<Rightarrow>
               Inr (''<td''
                    @ (if tbl > 1 \<and> j + 1 < n
                       then '' style = '' @ dq @ ''width:'' @ show_nat (100 div n) @ ''%'' @ dq
                       else [])
                    @ ''>'' @ s @ ''</td>'' @ s')))"
| "OnMembers X url tbl d [] = Inr []"
| "OnMembers X url tbl d ((k, v) # rest) =
     (case OnObjInternal X url tbl d v of
        Inl e \<Rightarrow> Inl e
      | Inr s \<Rightarrow>
          (case OnMembers X url tbl d rest of
             Inl e \<Rightarrow> Inl e
           | Inr s' \<Rightarrow> Inr (''<li>'' @ k @ '': '' @ s @ ''</li>'' @ s')))"
| "OnElems X url tbl d i [] = Inr []"
| "OnElems X url tbl d i (x # rest) =
     (case OnObjInternal X url tbl d x of
        Inl e \<Rightarrow> Inl e
      | Inr s \<Rightarrow>
          (case OnElems X url tbl d (i + 1) rest of
             Inl e \<Rightarrow> Inl e
           | Inr s' \<Rightarrow> Inr ((if i \<noteq> 0 then '', '' else []) @ s @ s')))"
  by pat_completeness auto
termination
  by (relation "measure (\<lambda>c. case c of
          Inl (Inl (X, url, tbl, d, obj)) \<Rightarrow> 2 * size obj
        | Inl (Inr (Inl (X, url, tbl, d, kvs))) \<Rightarrow> 2 * size_list (size_prod (\<lambda>x. 0) size) kvs + 1
        | Inl (Inr (Inr (X, url, tbl, d, rows))) \<Rightarrow> 2 * size_list size rows + 1
        | Inr (Inl (X, url, tbl, d, n, j, cells)) \<Rightarrow> 2 * size_list size cells + 1
        | Inr (Inr (Inl (X, url, tbl, d, kvs))) \<Rightarrow> 2 * size_list (size_prod (\<lambda>x. 0) size) kvs + 1
        | Inr (Inr (Inr (X, url, tbl, d, i, xs))) \<Rightarrow> 2 * size_list size xs + 1)")
     (auto dest: find_key_size)

text \<open>
  What the converter walks. \<open>tag_of\<close> is the decision of \<open>OnObjSpecial\<close>: a node it
  renders without visiting any member (\<open>Leaf\<close>), a group or table whose rows it hands
  to \<open>OnTableData\<close> (\<open>Rows\<close>), or a node it declines (\<open>NotTagged\<close>).
  \<open>row_items\<close> are the nodes of a table row that \<open>OnTableData\<close> passes to
  \<open>OnObjInternal\<close>, and \<open>hdepth\<close> is the depth of the tree along the nodes
  \<open>OnObjInternal\<close> is called on.
\<close>

datatype tagged = NotTagged | Leaf | Rows "json list"

definition tag_of :: "ext \<Rightarrow> (string \<times> json) list \<Rightarrow> tagged" where
  "tag_of X kvs =
     (case find_key kvs ''type'' of
        None \<Rightarrow> NotTagged
      | Some objT \<Rightarrow>
     (case find_key kvs ''value'' of
        None \<Rightarrow> NotTagged
      | Some objV \<Rightarrow>
     (case objT of
        JStr sType \<Rightarrow>
          if sType = ''aid'' then
            (case objV of JInt i \<Rightarrow> Leaf | JUInt u \<Rightarrow> Leaf | JFloat f \<Rightarrow> Leaf | _ \<Rightarrow> NotTagged)
          else if sType = ''amount'' then
            (case ReadAmount X objV of None \<Rightarrow> NotTagged | Some r \<Rightarrow> Leaf)
          else if sType = ''cid'' then
            (case objV of JStr s \<Rightarrow> Leaf | _ \<Rightarrow> NotTagged)
          else if sType = ''th'' then
            (case objV of JStr s \<Rightarrow> Leaf | _ \<Rightarrow> NotTagged)
          else if sType = ''group'' then
            (case objV of JArr rows \<Rightarrow> Rows rows | _ \<Rightarrow> NotTagged)
          else if sType = ''table'' then
            (case objV of JArr rows \<Rightarrow> Rows rows | _ \<Rightarrow> NotTagged)
          else NotTagged
      | _ \<Rightarrow> NotTagged)))"

lemma tag_of_Rows_value: "tag_of X kvs = Rows rows \<Longrightarrow> find_key kvs ''value'' = Some (JArr rows)"
  by (auto simp: tag_of_def split: option.splits json.splits if_splits)

lemma tag_of_Rows_size:
  "tag_of X kvs = Rows rows \<Longrightarrow> size_list size rows < size_list (size_prod (\<lambda>x. 0) size) kvs"
  using find_key_size [of kvs "''value''" "JArr rows"] by (auto dest!: tag_of_Rows_value)

definition row_items :: "json \<Rightarrow> json list" where
  "row_items x = (case x of JArr cells \<Rightarrow> cells | _ \<Rightarrow> [x])"

lemma row_items_size: "y \<in> set (row_items x) \<Longrightarrow> size y \<le> size x"
  by (cases x) (auto simp: row_items_def dest: size_list_estimation' [where f = size, OF _ order_refl])

lemma walked_rows_size:
  assumes "tag_of X kvs = Rows rows" and "y \<in> set (concat (map row_items rows))"
  shows "size y < size (JObj kvs)"
proof -
  from assms(2) obtain x where x: "x \<in> set rows" "y \<in> set (row_items x)" by auto
  from x(1) have "size x \<le> size_list size rows"
    by (simp add: size_list_estimation')
  with row_items_size [OF x(2)] tag_of_Rows_size [OF assms(1)] show ?thesis by simp
qed

function hdepth :: "ext \<Rightarrow> json \<Rightarrow> nat" where
  "hdepth X (JArr xs) = Suc (foldr max (map (hdepth X) xs) 0)"
| "hdepth X (JObj kvs) =
     (case tag_of X kvs of
        Leaf \<Rightarrow> 1
      | Rows rows \<Rightarrow> Suc (foldr max (map (hdepth X) (concat (map row_items rows))) 0)
      | NotTagged \<Rightarrow> Suc (foldr max (map (\<lambda>(k, v). hdepth X v) kvs) 0))"
| "hdepth X JNull = 1"
| "hdepth X (JBool b) = 1"
| "hdepth X (JInt i) = 1"
| "hdepth X (JUInt u) = 1"
| "hdepth X (JFloat f) = 1"
| "hdepth X (JStr s) = 1"
  by pat_completeness auto
termination
proof (relation "measure (\<lambda>(X, j). size j)", goal_cases)
  case 1
  show ?case by simp
next
  case (2 X xs x)
  then show ?case by (simp add: less_Suc_eq_le size_list_estimation')
next
  case (3 X kvs x k v)
  then have "size v \<le> size_list (size_prod (\<lambda>x. 0) size) kvs"
    using size_list_estimation' [of x kvs "size v" "size_prod (\<lambda>x. 0) size"] by auto
  then show ?case by simp
next
  case (4 X kvs rows y)
  from walked_rows_size [OF 4(1)] 4(2) show ?case by simp
qed

definition html_head :: string where
  "html_head =
     ''<!DOCTYPE html>'' @ nl @ ''<html>'' @ nl @ ''<head>'' @ nl
     @ ''<meta name='' @ dq @ ''viewport'' @ dq @ '' content='' @ dq
     @ ''width=device-width, initial-scale=1'' @ dq @ ''>'' @ nl
     @ ''<style>'' @ nl @ ''table, th, td {'' @ nl @ ''  border: 1px solid black;'' @ nl
     @ ''  border-collapse: collapse;'' @ nl @ ''}'' @ nl @ ''td {'' @ nl
     @ ''  text-align: right;'' @ nl @ ''}'' @ nl @ ''</style>'' @ nl @ ''</head>'' @ nl
     @ ''<body>'' @ nl"

definition html_tail :: string where
  "html_tail = ''</body>'' @ nl @ ''</html>'' @ nl"

text \<open>\<open>Convert\<close> on a fresh converter, then \<open>get_Res\<close>: the text of \<open>m_os\<close>.\<close>

definition Convert :: "ext \<Rightarrow> string \<Rightarrow> json \<Rightarrow> string exc" where
  "Convert X url obj =
     (case OnObjInternal X url 0 0 obj of
        Inl e \<Rightarrow> Inl e
      | Inr s \<Rightarrow> Inr (html_head @ s @ html_tail))"

subsection \<open>URL arguments\<close>

text \<open>
  Modelled from the spec: \<open>HttpUrl::get_int_arg\<close> is declared outside this file;
  it "returns default if absent or unparsable".
\<close>

definition get_int_arg :: "ext \<Rightarrow> HttpUrl \<Rightarrow> string \<Rightarrow> i64 \<Rightarrow> i64" where
  "get_int_arg X url name dflt =
     (case args url name of
        None \<Rightarrow> dflt
      | Some txt \<Rightarrow> (case parse_int X txt of None \<Rightarrow> dflt | Some v \<Rightarrow> v))"

text \<open>
  Modelled from the spec: \<open>uintBigImpl::_Scan(p, sz, nTxtLen)\<close> is defined outside
  this file. It decodes hex digit pairs into bytes, first digit high, stops at the
  first character that is not a hex digit, and returns the number of characters
  it decoded.
\<close>

definition ChFromHex :: "char \<Rightarrow> nat option" where
  "ChFromHex c =
     (let n = of_char c :: nat in
      if 48 \<le> n \<and> n \<le> 57 then Some (n - 48)
      else if 97 \<le> n \<and> n \<le> 102 then Some (n - 87)
      else if 65 \<le> n \<and> n \<le> 70 then Some (n - 55)
      else None)"

fun hex_bytes :: "string \<Rightarrow> u8 list" where
  "hex_bytes (a # b # rest) =
     of_nat (16 * the (ChFromHex a) + the (ChFromHex b)) # hex_bytes rest"
| "hex_bytes [a] = [of_nat (16 * the (ChFromHex a))]"
| "hex_bytes [] = []"

definition Scan :: "string \<Rightarrow> nat \<Rightarrow> nat \<times> u8 list" where
  "Scan sz nTxtLen =
     (let ds = takeWhile (\<lambda>c. ChFromHex c \<noteq> None) (take nTxtLen sz)
      in (length ds, hex_bytes ds))"

text \<open>Modelled from the spec: the encoding of bytes as hex digit pairs, lower case.\<close>

definition hex_digit :: "nat \<Rightarrow> char" where
  "hex_digit n = ''0123456789abcdef'' ! n"

fun hex_encode :: "u8 list \<Rightarrow> string" where
  "hex_encode [] = []"
| "hex_encode (b # bs) = hex_digit (unat b div 16) # hex_digit (unat b mod 16) # hex_encode bs"

text \<open>
  \<open>get_UrlHexArg\<close>: \<open>None\<close> is the result false, \<open>Some bytes\<close> is true with the
  bytes written to \<open>p\<close>. \<open>n\<close> is a \<open>uint32_t\<close> and \<open>n <<= 1\<close> wraps.
\<close>

definition get_UrlHexArg :: "HttpUrl \<Rightarrow> string \<Rightarrow> u32 \<Rightarrow> u8 list option" where
  "get_UrlHexArg url name n =
     (case args url name of
        None \<Rightarrow> None
      | Some val \<Rightarrow>
          (let n2 = push_bit 1 n
           in if length val \<noteq> unat n2 then None
              else (case Scan val (unat n2) of
                      (ret, bytes) \<Rightarrow> if ret = unat n2 then Some bytes else None)))"

subsection \<open>Column selection of the hdrs route\<close>

definition col_of_char :: "char \<Rightarrow> TotalsCol option" where
  "col_of_char ch =
     (if ch = CHR ''H'' then Some Hash_Abs
      else if ch = CHR ''T'' then Some Time_Abs else if ch = CHR ''t'' then Some Time_Rel
      else if ch = CHR ''G'' then Some Age_Abs else if ch = CHR ''g'' then Some Age_Rel
      else if ch = CHR ''D'' then Some Difficulty_Abs else if ch = CHR ''d'' then Some Difficulty_Rel
      else if ch = CHR ''F'' then Some Fee_Abs else if ch = CHR ''f'' then Some Fee_Rel
      else if ch = CHR ''K'' then Some Kernels_Abs else if ch = CHR ''k'' then Some Kernels_Rel
      else if ch = CHR ''O'' then Some MwOutputs_Abs else if ch = CHR ''o'' then Some MwOutputs_Rel
      else if ch = CHR ''I'' then Some MwInputs_Abs else if ch = CHR ''i'' then Some MwInputs_Rel
      else if ch = CHR ''U'' then Some MwUtxos_Abs else if ch = CHR ''u'' then Some MwUtxos_Rel
      else if ch = CHR ''Z'' then Some ShOutputs_Abs else if ch = CHR ''z'' then Some ShOutputs_Rel
      else if ch = CHR ''Y'' then Some ShInputs_Abs else if ch = CHR ''y'' then Some ShInputs_Rel
      else if ch = CHR ''B'' then Some ContractsActive_Abs
      else if ch = CHR ''b'' then Some ContractsActive_Rel
      else if ch = CHR ''P'' then Some ContractCalls_Abs
      else if ch = CHR ''p'' then Some ContractCalls_Rel
      else if ch = CHR ''C'' then Some SizeCompressed_Abs
      else if ch = CHR ''c'' then Some SizeCompressed_Rel
      else if ch = CHR ''A'' then Some SizeArchive_Abs
      else if ch = CHR ''a'' then Some SizeArchive_Rel
      else None)"

text \<open>
  The loop over the characters of \<open>cols\<close>. \<open>pCols\<close> holds the \<open>nCols\<close> entries
  written so far, \<open>cap\<close> is \<open>_countof(pCols)\<close>, that is \<open>C::count\<close>. A write
  past the array (the failing \<open>assert\<close>) is \<open>None\<close>.
\<close>

fun cols_loop :: "nat \<Rightarrow> string \<Rightarrow> TotalsCol list \<Rightarrow> TotalsCol list option" where
  "cols_loop cap [] pCols = Some pCols"
| "cols_loop cap (ch # rest) pCols =
     (case col_of_char ch of
        None \<Rightarrow> cols_loop cap rest pCols
      | Some v \<Rightarrow>
          if \<not> length pCols < cap then None
          else if length (pCols @ [v]) = cap then Some (pCols @ [v])
          else cols_loop cap rest (pCols @ [v]))"

definition default_cols :: "TotalsCol list" where
  "default_cols = [Hash_Abs, Time_Abs, Difficulty_Rel, Fee_Rel, Kernels_Rel, MwOutputs_Rel,
     MwInputs_Rel, ShOutputs_Rel, ShInputs_Rel, ContractCalls_Rel]"

definition hdrs_cols :: "nat \<Rightarrow> string option \<Rightarrow> TotalsCol list option" where
  "hdrs_cols cap it =
     (case it of
        None \<Rightarrow> if length default_cols \<le> cap then Some default_cols else None
      | Some cols \<Rightarrow> cols_loop cap cols [])"




subsection \<open>Route handlers\<close>

text \<open>
  A handler reads \<open>_currentUrl\<close> and calls the backend in the mode \<open>M\<close> that
  \<open>on_request\<close> has set. \<open>C::count\<close> is \<open>29 + extra_cols X\<close>.
\<close>

definition on_request_status :: "ext \<Rightarrow> Mode \<Rightarrow> HttpUrl \<Rightarrow> json exc" where
  "on_request_status X M url = backend X M get_status"

definition on_request_block :: "ext \<Rightarrow> Mode \<Rightarrow> HttpUrl \<Rightarrow> json exc" where
  "on_request_block X M url =
     (case get_UrlHexArg url ''kernel'' (hash_bytes X) of
        Some hv \<Rightarrow> backend X M (get_block_by_kernel hv)
      | None \<Rightarrow> backend X M (get_block (get_int_arg X url ''height'' 0)))"

definition on_request_blocks :: "ext \<Rightarrow> Mode \<Rightarrow> HttpUrl \<Rightarrow> json exc" where
  "on_request_blocks X M url =
     (let start = get_int_arg X url ''height'' 0;
          n = get_int_arg X url ''n'' 0
      in if sint start \<le> 0 \<or> sint n < 0 then Inl ''#3.1''
         else backend X M (get_blocks start n))"

definition on_request_hdrs :: "ext \<Rightarrow> Mode \<Rightarrow> HttpUrl \<Rightarrow> json exc" where
  "on_request_hdrs X M url =
     (let hTop = get_int_arg X url ''hMax'' 0x7FFFFFFFFFFFFFFF;
          n = (ucast (get_int_arg X url ''nMax'' 0xFFFFFFFF) :: u32);
          dh = get_int_arg X url ''dh'' 1
      in (case hdrs_cols (29 + extra_cols X) (args url ''cols'') of
            None \<Rightarrow> Inl ''assertion failed''
          | Some pCols \<Rightarrow> backend X M (get_hdrs hTop n dh pCols)))"

definition on_request_peers :: "ext \<Rightarrow> Mode \<Rightarrow> HttpUrl \<Rightarrow> json exc" where
  "on_request_peers X M url = backend X M get_peers"

definition on_request_swap_offers :: "ext \<Rightarrow> Mode \<Rightarrow> HttpUrl \<Rightarrow> json exc" where
  "on_request_swap_offers X M url = backend X M get_swap_offers"

definition on_request_swap_totals :: "ext \<Rightarrow> Mode \<Rightarrow> HttpUrl \<Rightarrow> json exc" where
  "on_request_swap_totals X M url = backend X M get_swap_totals"

definition on_request_contracts :: "ext \<Rightarrow> Mode \<Rightarrow> HttpUrl \<Rightarrow> json exc" where
  "on_request_contracts X M url = backend X M get_contracts"

definition on_request_contract :: "ext \<Rightarrow> Mode \<Rightarrow> HttpUrl \<Rightarrow> json exc" where
  "on_request_contract X M url =
     (case get_UrlHexArg url ''id'' (hash_bytes X) of
        None \<Rightarrow> Inl ''id missing''
      | Some cid \<Rightarrow>
          (let hMin = get_int_arg X url ''hMin'' 0;
               hMax = get_int_arg X url ''hMax'' (- 1);
               nMaxTxs = (ucast (get_int_arg X url ''nMaxTxs'' 0xFFFFFFFF) :: u32)
           in backend X M (get_contract_details cid hMin hMax nMaxTxs)))"

definition on_request_asset :: "ext \<Rightarrow> Mode \<Rightarrow> HttpUrl \<Rightarrow> json exc" where
  "on_request_asset X M url =
     (let aid = get_int_arg X url ''id'' 0;
          hMin = get_int_arg X url ''hMin'' 0;
          hMax = get_int_arg X url ''hMax'' (- 1);
          nMaxOps = (ucast (get_int_arg X url ''nMaxOps'' (- 1)) :: u32)
      in backend X M (get_asset_details (ucast aid) hMin hMax nMaxOps))"

definition on_request_assets :: "ext \<Rightarrow> Mode \<Rightarrow> HttpUrl \<Rightarrow> json exc" where
  "on_request_assets X M url =
     backend X M (get_assets_at (get_int_arg X url ''height'' (- 1)))"

text \<open>The switch of \<open>on_request\<close> on \<open>_currentUrl.dir\<close>: \<open>None\<close> is \<open>pFn = 0\<close>.\<close>

definition pFn_of :: "DirType \<Rightarrow> (ext \<Rightarrow> Mode \<Rightarrow> HttpUrl \<Rightarrow> json exc) option" where
  "pFn_of d =
     (case d of
        Unused \<Rightarrow> None
      | status \<Rightarrow> Some on_request_status
      | block \<Rightarrow> Some on_request_block
      | blocks \<Rightarrow> Some on_request_blocks
      | hdrs \<Rightarrow> Some on_request_hdrs
      | peers \<Rightarrow> Some on_request_peers
      | swap_offers \<Rightarrow> Some on_request_swap_offers
      | swap_totals \<Rightarrow> Some on_request_swap_totals
      | contracts \<Rightarrow> Some on_request_contracts
      | contract \<Rightarrow> Some on_request_contract
      | asset \<Rightarrow> Some on_request_asset
      | assets \<Rightarrow> Some on_request_assets)"

subsection \<open>The server\<close>

record Address =
  ip :: u32
  port :: "16 word"

text \<open>
  Modelled from the spec: \<open>io::Address::u64()\<close> is the "peer identity (IP+port
  encoded as a single integer)".
\<close>

definition u64_of :: "Address \<Rightarrow> u64" where
  "u64_of a = push_bit 16 (ucast (ip a)) OR ucast (port a)"

record HttpConnection =
  conn_id :: u64
  peer_address :: Address

text \<open>
  What the server does to the network, in order: the headers of a response handed
  to \<open>write_msg\<close> (status code, message, whether the content type is
  \<open>text/html\<close>, the body size announced, and the result of the write), the body
  handed to \<open>write_msg\<close> (and the result), and \<open>shutdown()\<close> of a connection.
\<close>

datatype event = SendHeaders u64 int string bool nat bool
  | SendBody u64 "string list" bool
  | Shutdown u64

record Server =
  connections :: "u64 \<Rightarrow> HttpConnection option"
  whitelist :: "u32 list"
  acl :: IPAccessControl
  body :: "string list"
  m_Mode :: Mode
  timers :: "u64 \<Rightarrow> nat option"
  sent :: "event list"

text \<open>The outcome of the I/O of one \<open>send\<close>.\<close>

record net =
  create_response_ok :: bool
  write_headers_ok :: bool
  write_body_ok :: bool

definition SERVER_RESTART_TIMER :: u64 where
  "SERVER_RESTART_TIMER = 1"

definition ACL_REFRESH_TIMER :: u64 where
  "ACL_REFRESH_TIMER = 2"

definition SERVER_RESTART_INTERVAL :: nat where
  "SERVER_RESTART_INTERVAL = 1000"

definition ACL_REFRESH_INTERVAL :: nat where
  "ACL_REFRESH_INTERVAL = 5555"

definition refresh_acl :: "ext \<Rightarrow> filesys \<Rightarrow> Server \<Rightarrow> Server" where
  "refresh_acl X fs S =
     S\<lparr>acl := refresh (resolve_addr X) fs (acl S),
       timers := (timers S)(ACL_REFRESH_TIMER \<mapsto> ACL_REFRESH_INTERVAL)\<rparr>"

definition on_stream_accepted :: "Server \<Rightarrow> Address \<Rightarrow> int \<Rightarrow> Server" where
  "on_stream_accepted S peer errorCode =
     (if errorCode = 0 then
        if whitelist S \<noteq> [] \<and> ip peer \<notin> set (whitelist S) then S
        else S\<lparr>connections := (connections S)
                 (u64_of peer \<mapsto> \<lparr>conn_id = u64_of peer, peer_address = peer\<rparr>)\<rparr>
      else S\<lparr>timers := (timers S)(SERVER_RESTART_TIMER \<mapsto> SERVER_RESTART_INTERVAL)\<rparr>)"

definition send :: "net \<Rightarrow> Server \<Rightarrow> u64 \<Rightarrow> int \<Rightarrow> string \<Rightarrow> bool \<Rightarrow> bool \<times> Server" where
  "send N S conn code message isHtml =
     (let bodySize = sum_list (map length (body S));
          ok = create_response_ok N;
          hdr = (if ok then [SendHeaders conn code message isHtml bodySize (write_headers_ok N)]
                 else []);
          result = (ok \<and> write_headers_ok N);
          bdy = (if result \<and> bodySize > 0 then [SendBody conn (body S) (write_body_ok N)]
                 else []);
          result' = (if result \<and> bodySize > 0 then write_body_ok N else result)
      in (result' \<and> code = 200, S\<lparr>body := [], sent := sent S @ hdr @ bdy\<rparr>))"

text \<open>\<open>json2Msg\<close>: the fragment pushed onto \<open>_body\<close>.\<close>

definition json2Msg :: "ext \<Rightarrow> json \<Rightarrow> string exc" where
  "json2Msg X obj =
     (case serialize_json_msg X obj of
        None \<Rightarrow> Inl ''couldn't serialized''
      | Some sm \<Rightarrow> Inr sm)"

text \<open>
  The body of the \<open>try\<close> block up to the call of \<open>send\<close>: the handler, then the
  rendering in the mode \<open>M\<close> that \<open>on_request\<close> has stored in
  \<open>_backend.m_Mode\<close>. \<open>_body\<close> is appended to by the last step only, so it is
  still empty when an exception leaves the block.
\<close>

definition render :: "ext \<Rightarrow> Mode \<Rightarrow> string \<Rightarrow> json \<Rightarrow> string exc" where
  "render X M path j =
     (case M of
        AutoHtml \<Rightarrow> Convert X path j
      | ExplicitType \<Rightarrow>
          (case jsonExp X j 0 of
             Inl e \<Rightarrow> Inl e
           | Inr j' \<Rightarrow> json2Msg X j')
      | Legacy \<Rightarrow> json2Msg X j)"

datatype Message = http_message string | other_message

definition mode_of :: "HttpUrl \<Rightarrow> Mode" where
  "mode_of url =
     (if args url ''htm'' \<noteq> None then AutoHtml
      else if args url ''exp_am'' \<noteq> None then ExplicitType
      else Legacy)"

text \<open>\<open>conn->shutdown(); _connections.erase(it)\<close> unless \<open>keepalive\<close>.\<close>

definition finish :: "u64 \<Rightarrow> bool \<Rightarrow> Server \<Rightarrow> bool \<times> Server" where
  "finish id' keepalive S =
     (if \<not> keepalive
      then (keepalive, S\<lparr>connections := (connections S)(id' := None),
                          sent := sent S @ [Shutdown id']\<rparr>)
      else (keepalive, S))"

definition on_request :: "ext \<Rightarrow> net \<Rightarrow> Server \<Rightarrow> u64 \<Rightarrow> Message \<Rightarrow> bool \<times> Server" where
  "on_request X N S id' msg =
     (case connections S id' of
        None \<Rightarrow> (False, S)
      | Some conn \<Rightarrow>
          (case msg of
             other_message \<Rightarrow> (False, S\<lparr>connections := (connections S)(id' := None)\<rparr>)
           | http_message path \<Rightarrow>
               (case (case parse_url X path of
                        None \<Rightarrow> None
                      | Some url \<Rightarrow> map_option (\<lambda>f. (f, url)) (pFn_of (dir url))) of
                  None \<Rightarrow> finish id' False (snd (send N S id' 404 ''Not Found'' False))
                | Some (pFn, url) \<Rightarrow>
                    (let M = mode_of url;
                         S1 = S\<lparr>m_Mode := M, body := []\<rparr>
                     in if \<not> check (localhost_ip X) (acl S1) (ip (peer_address conn))
                        then finish id' False (snd (send N S1 id' 403 ''Forbidden'' False))
                        else (case (case pFn X M url of
                                      Inl e \<Rightarrow> Inl e
                                    | Inr j \<Rightarrow> render X M path j) of
                                Inl e \<Rightarrow>
                                  finish id' False
                                    (snd (send N S1 id' 500 (''Internal error: '' @ e) False))
                              | Inr frag \<Rightarrow>
                                  (case send N (S1\<lparr>body := body S1 @ [frag]\<rparr>) id' 200 ''OK''
                                          (M = AutoHtml) of
                                     (keepalive, S2) \<Rightarrow> finish id' keepalive S2))))))"

subsection \<open>Stand-ins for the parameters, to run the model on\<close>

text \<open>
  Decimal digits scanned and printed as a plain number, a serializer that writes
  a fixed text, a parser that knows the routes used below, and a backend that
  answers every query with the document \<open>doc\<close>.
\<close>

fun dec_val :: "string \<Rightarrow> nat \<Rightarrow> nat" where
  "dec_val [] acc = acc"
| "dec_val (c # cs) acc = dec_val cs (10 * acc + (of_char c - 48))"

definition is_digit :: "char \<Rightarrow> bool" where
  "is_digit c = (48 \<le> (of_char c :: nat) \<and> (of_char c :: nat) \<le> 57)"

definition scan_dec :: "string \<Rightarrow> nat \<times> nat" where
  "scan_dec s = (let ds = takeWhile is_digit s in (length ds, dec_val ds 0))"

definition url0 :: "string \<Rightarrow> HttpUrl option" where
  "url0 path =
     (if path = ''blocks?height=0'' then
        Some \<lparr>dir = blocks, args = [''height'' \<mapsto> ''0'']\<rparr>
      else if path = ''blocks?height=1&n=0'' then
        Some \<lparr>dir = blocks, args = [''height'' \<mapsto> ''1'', ''n'' \<mapsto> ''0'']\<rparr>
      else if path = ''contract'' then
        Some \<lparr>dir = contract, args = Map.empty\<rparr>
      else if path = ''status'' then
        Some \<lparr>dir = status, args = Map.empty\<rparr>
      else if path = ''status?htm=1'' then
        Some \<lparr>dir = status, args = [''htm'' \<mapsto> ''1'']\<rparr>
      else if path = ''status?exp_am=1'' then
        Some \<lparr>dir = status, args = [''exp_am'' \<mapsto> ''1'']\<rparr>
      else None)"

definition int0 :: "string \<Rightarrow> i64 option" where
  "int0 s = (if s = ''0'' then Some 0 else if s = ''1'' then Some 1 else None)"

definition ext0 :: "json \<Rightarrow> ext" where
  "ext0 doc =
     \<lparr>ScanDecimal = scan_dec, Print = show_nat,
      float_u64 = (\<lambda>f. 0), float_u32 = (\<lambda>f. 0), float_str = (\<lambda>f. []),
      parse_int = int0, hash_bytes = 32, extra_cols = 0,
      serialize_json_msg = (\<lambda>j. Some ''{}''),
      resolve_addr = resolve2, localhost_ip = 0x7F000001,
      parse_url = url0, backend = (\<lambda>M q. Inr doc)\<rparr>"

definition peer0 :: Address where
  "peer0 = \<lparr>ip = 0x0A000001, port = 4000\<rparr>"

definition server0 :: Server where
  "server0 =
     \<lparr>connections = [u64_of peer0 \<mapsto> \<lparr>conn_id = u64_of peer0, peer_address = peer0\<rparr>],
      whitelist = [],
      acl = \<lparr>enabled = False, ipsFileName = [], lastModified = 0, ips = {}\<rparr>,
      body = [], m_Mode = Legacy, timers = Map.empty, sent = []\<rparr>"

definition neg5 :: "(string \<times> json) list" where
  "neg5 = [(''type'', JStr ''amount''), (''value'', JInt (- 5))]"






text \<open>A header node that carries, beside its text, a member nested 131 levels deep.\<close>

definition deep_th :: json where
  "deep_th = JObj [(''deep'', nest 130), (''type'', JStr ''th''), (''value'', JStr ''x'')]"

definition net_ok :: net where
  "net_ok = \<lparr>create_response_ok = True, write_headers_ok = True, write_body_ok = True\<rparr>"

section \<open>Properties\<close>

subsection \<open>IPAccessControl\<close>

lemma read_lines_eq:
  "read_lines resolve lns s =
     s \<union> {a. \<exists>ln \<in> set lns. 7 \<le> length (trim ln) \<and> resolve (c_str (trim ln)) = Some a}"
proof (induction lns arbitrary: s)
  case Nil
  show ?case by simp
next
  case (Cons ln rest)
  show ?case
  proof (cases "length (trim ln) < 7")
    case True
    then show ?thesis using Cons.IH [of s] by (auto simp: Let_def)
  next
    case False
    then show ?thesis
      using Cons.IH [of s] Cons.IH [of "insert (the (resolve (c_str (trim ln)))) s"]
      by (cases "resolve (c_str (trim ln))") (auto simp: Let_def)
  qed
qed

lemma resolved_ips_read_lines:
  "resolved_ips resolve content = read_lines resolve (getlines [] content) {}"
  by (simp add: read_lines_eq resolved_ips_def)

lemma acl1_eq:
  "acl1 = \<lparr>enabled = True, ipsFileName = ''acl.txt'', lastModified = 100, ips = {0x0A000001}\<rparr>"
  by (simp add: acl1_def IPAccessControl_ctor_def refresh_def fs1_def content1_def resolve2_def
      trim_def is_space_def c_str_def NUL_def Let_def)

lemma resolved_content2: "resolved_ips resolve2 content2 = {0x0A000002}"
  by (simp add: resolved_ips_read_lines content2_def resolve2_def trim_def is_space_def
      c_str_def NUL_def Let_def)

text \<open>
  Claim C1, as amended. When an enabled list sees a modification time later than the
  one it recorded, \<open>refresh\<close> records the new time and adds the addresses resolved
  from the file's valid lines (trimmed, at least 7 characters, resolvable) to the
  permitted set. Nothing is removed: the set after the refresh is the set before it
  united with the resolved addresses.
\<close>

theorem refresh_accumulates:
  assumes "enabled a" and "fs (ipsFileName a) = Some (t, content)" and "lastModified a < t"
  shows "ips (refresh resolve fs a) = ips a \<union> resolved_ips resolve content
         \<and> lastModified (refresh resolve fs a) = t"
  using assms by (simp add: refresh_def read_lines_eq resolved_ips_def)

theorem refresh_accumulates_witness:
  "enabled acl1 \<and> fs2 (ipsFileName acl1) = Some (200, content2) \<and> lastModified acl1 < 200
   \<and> ips (refresh resolve2 fs2 acl1) = {0x0A000001, 0x0A000002}
   \<and> lastModified (refresh resolve2 fs2 acl1) = 200"
proof -
  have h1: "enabled acl1" by (simp add: acl1_eq)
  have h2: "fs2 (ipsFileName acl1) = Some (200, content2)"
    by (simp add: acl1_eq fs2_def)
  have h3: "lastModified acl1 < 200" by (simp add: acl1_eq)
  from refresh_accumulates [of acl1 fs2 200 content2 resolve2] h1 h2 h3 show ?thesis
    by (auto simp: resolved_content2 acl1_eq)
qed

text \<open>
  Claim C1 as stated fails. The list \<open>acl1\<close> was built from a file that listed
  10.0.0.1; the file then changes (a later modification time) and lists 10.0.0.2
  only. After the refresh 10.0.0.1 is still permitted, and the permitted set is not
  the set resolved from the file.
\<close>

theorem refresh_replaces_counterexample:
  "enabled acl1 \<and> lastModified acl1 < 200
   \<and> fs2 (ipsFileName acl1) = Some (200, content2)
   \<and> 0x0A000001 \<in> ips acl1
   \<and> 0x0A000001 \<notin> resolved_ips resolve2 content2
   \<and> 0x0A000001 \<in> ips (refresh resolve2 fs2 acl1)
   \<and> ips (refresh resolve2 fs2 acl1) \<noteq> resolved_ips resolve2 content2"
  by (simp add: acl1_eq resolved_content2 refresh_def fs2_def read_lines_eq
      resolved_ips_def [symmetric])

subsection \<open>Accepting a stream\<close>

text \<open>
  Claim C10. With a non-empty whitelist, accepting a stream (error code 0) whose peer
  IP is not in the whitelist changes nothing: no connection is entered in the table
  and nothing is sent. This holds for every peer, the loopback address included, while
  \<open>check\<close> of IPAccessControl lets the loopback address through whatever the list.
\<close>

theorem whitelist_drops_unlisted:
  assumes "whitelist S \<noteq> []" and "ip peer \<notin> set (whitelist S)"
  shows "on_stream_accepted S peer 0 = S \<and> check lh a lh"
  using assms by (simp add: on_stream_accepted_def check_def)

theorem whitelist_drops_unlisted_witness:
  "whitelist (server0\<lparr>whitelist := [0x0A000001]\<rparr>) \<noteq> []
   \<and> ip \<lparr>ip = 0x7F000001, port = 5000\<rparr> \<notin> set (whitelist (server0\<lparr>whitelist := [0x0A000001]\<rparr>))
   \<and> on_stream_accepted (server0\<lparr>whitelist := [0x0A000001]\<rparr>) \<lparr>ip = 0x7F000001, port = 5000\<rparr> 0
       = server0\<lparr>whitelist := [0x0A000001]\<rparr>
   \<and> check 0x7F000001 (acl server0) 0x7F000001"
  using whitelist_drops_unlisted [of "server0\<lparr>whitelist := [0x0A000001]\<rparr>"
      "\<lparr>ip = 0x7F000001, port = 5000\<rparr>" "0x7F000001" "acl server0"]
  by simp

subsection \<open>The hdrs route and amounts\<close>





lemma uint_sint_mod: "uint (i :: 64 word) = sint i mod 2 ^ 64"
proof -
  have "sint i mod 2 ^ 64 = take_bit 64 (sint i)"
    by (simp only: take_bit_eq_mod)
  also have "\<dots> = uint i"
    using uint_sint [of i] by simp
  finally show ?thesis by simp
qed

text \<open>
  Claim C9. For an object whose \<open>type\<close> is the string \<open>amount\<close> and whose \<open>value\<close>
  is a number, \<open>ReadAmount\<close> succeeds with no sign character and the number read as
  \<open>uint64_t\<close>: a signed integer yields its value modulo \<open>2 ^ 64\<close>. The node is
  rendered without a sign: in blue in HTML, and as the printed magnitude alone by
  \<open>jsonExp\<close>.
\<close>

theorem ReadAmount_number:
  assumes "find_key kvs ''type'' = Some (JStr ''amount'')"
    and "find_key kvs ''value'' = Some objV"
    and "objV = JInt i \<and> n = unat i \<or> objV = JUInt u \<and> n = unat u
         \<or> objV = JFloat f \<and> n = unat (float_u64 X f)"
  shows "ReadAmount X objV = Some (n, NUL)
         \<and> (objV = JInt i \<longrightarrow> int n = sint i mod 2 ^ 64)
         \<and> OnObjSpecial X url tbl d kvs
             = Inr (Some (''<p2 style='' @ dq @ ''color:blue'' @ dq @ ''>'' @ Print X n @ ''</p2>''))
         \<and> exp_amount X kvs = assign_key ''value'' (JStr (Print X n)) kvs"
proof -
  from assms(3) have r: "ReadAmount X objV = Some (n, NUL)"
    by (auto simp: ReadAmount_def)
  have m: "objV = JInt i \<longrightarrow> int n = sint i mod 2 ^ 64"
    using assms(3) by (auto simp: uint_sint_mod)
  have h: "OnObjSpecial X url tbl d kvs
             = Inr (Some (''<p2 style='' @ dq @ ''color:blue'' @ dq @ ''>'' @ Print X n @ ''</p2>''))"
    using assms(1,2) r by (simp add: amount_html_def sign_str_def NUL_def)
  have e: "exp_amount X kvs = assign_key ''value'' (JStr (Print X n)) kvs"
    using assms(1,2) r by (simp add: exp_amount_def sign_str_def)
  from r m h e show ?thesis by blast
qed

lemma show_big: "show_nat 18446744073709551611 = ''18446744073709551611''"
  by (simp add: show_nat.simps digit_char_def)

theorem ReadAmount_number_witness:
  "find_key neg5 ''type'' = Some (JStr ''amount'') \<and> find_key neg5 ''value'' = Some (JInt (- 5))
   \<and> sint (- 5 :: i64) = - 5
   \<and> ReadAmount (ext0 JNull) (JInt (- 5)) = Some (18446744073709551611, NUL)
   \<and> OnObjSpecial (ext0 JNull) ''u'' 0 1 neg5
       = Inr (Some (''<p2 style='' @ dq @ ''color:blue'' @ dq @ ''>18446744073709551611</p2>''))
   \<and> exp_amount (ext0 JNull) neg5
       = [(''type'', JStr ''amount''), (''value'', JStr ''18446744073709551611'')]"
proof -
  have t: "find_key neg5 ''type'' = Some (JStr ''amount'')"
    and v: "find_key neg5 ''value'' = Some (JInt (- 5))"
    by (simp_all add: neg5_def find_key_def)
  have n: "JInt (- 5) = JInt (- 5) \<and> 18446744073709551611 = unat (- 5 :: i64)
         \<or> JInt (- 5) = JUInt 0 \<and> 18446744073709551611 = unat (0 :: u64)
         \<or> JInt (- 5) = JFloat f \<and> 18446744073709551611 = unat (float_u64 (ext0 JNull) f)" for f
    by simp
  have p: "Print (ext0 JNull) 18446744073709551611 = ''18446744073709551611''"
    by (simp add: ext0_def show_big)
  have a: "assign_key ''value'' (JStr ''18446744073709551611'') neg5
             = [(''type'', JStr ''amount''), (''value'', JStr ''18446744073709551611'')]"
    by (simp add: neg5_def)
  from ReadAmount_number [OF t v n, of "''u''" 0 1] p a t v show ?thesis
    by (simp del: OnObjSpecial.simps)
qed

subsection \<open>The fixed-length hex accessor\<close>

lemma ChFromHex_hex_digit_all: "list_all (\<lambda>k. ChFromHex (hex_digit k) = Some k) [0..<16]"
  by code_simp

lemma ChFromHex_hex_digit: "k < 16 \<Longrightarrow> ChFromHex (hex_digit k) = Some k"
  using ChFromHex_hex_digit_all by (simp add: list_all_iff)

lemma hex_bytes_encode: "hex_bytes (hex_encode bs) = bs"
proof (induction bs)
  case Nil
  show ?case by simp
next
  case (Cons b bs)
  have "unat b div 16 < 16" using unsigned_less [of b, where ?'a = nat] by simp
  moreover have "unat b mod 16 < 16" by simp
  moreover have "(of_nat (16 * (unat b div 16) + unat b mod 16) :: u8) = b" by simp
  ultimately show ?case using Cons by (simp add: ChFromHex_hex_digit)
qed

lemma hex_encode_hex: "c \<in> set (hex_encode bs) \<Longrightarrow> ChFromHex c \<noteq> None"
proof (induction bs)
  case Nil
  then show ?case by simp
next
  case (Cons b bs)
  have "unat b div 16 < 16" using unsigned_less [of b, where ?'a = nat] by simp
  moreover have "unat b mod 16 < 16" by simp
  ultimately show ?case using Cons by (auto simp: ChFromHex_hex_digit)
qed

lemma length_hex_encode: "length (hex_encode bs) = 2 * length bs"
  by (induction bs) auto

lemma length_hex_bytes: "length (hex_bytes s) = (length s + 1) div 2"
  by (induction s rule: hex_bytes.induct) auto

lemma Scan_full:
  "fst (Scan val (length val)) = length val \<longleftrightarrow> (\<forall>c \<in> set val. ChFromHex c \<noteq> None)"
proof -
  have "length (takeWhile (\<lambda>c. ChFromHex c \<noteq> None) val) = length val
        \<longleftrightarrow> (\<forall>c \<in> set val. ChFromHex c \<noteq> None)"
    by (induction val) auto
  then show ?thesis by (simp add: Scan_def Let_def)
qed

lemma Scan_snd:
  assumes "\<forall>c \<in> set val. ChFromHex c \<noteq> None"
  shows "snd (Scan val (length val)) = hex_bytes val"
  using assms by (simp add: Scan_def Let_def takeWhile_eq_all_conv [THEN iffD2])

lemma unat_shift1: "unat (n :: u32) < 2 ^ 31 \<Longrightarrow> unat (push_bit 1 n) = 2 * unat n"
  by (simp add: unat_word_ariths push_bit_eq_mult)

lemma get_UrlHexArg_Some:
  "get_UrlHexArg url name n = Some bs \<longleftrightarrow>
     (\<exists>val. args url name = Some val \<and> length val = unat (push_bit 1 n)
        \<and> (\<forall>c \<in> set val. ChFromHex c \<noteq> None) \<and> bs = hex_bytes val)"
proof (cases "args url name")
  case None
  then show ?thesis by (simp add: get_UrlHexArg_def)
next
  case (Some val)
  show ?thesis
  proof (cases "length val = unat (push_bit 1 n)")
    case False
    with Some show ?thesis by (simp add: get_UrlHexArg_def Let_def)
  next
    case True
    obtain ret bytes where sc: "Scan val (length val) = (ret, bytes)" by (cases "Scan val (length val)")
    from Scan_full [of val] sc have r: "ret = length val \<longleftrightarrow> (\<forall>c \<in> set val. ChFromHex c \<noteq> None)"
      by simp
    from Scan_snd [of val] sc have b: "(\<forall>c \<in> set val. ChFromHex c \<noteq> None) \<Longrightarrow> bytes = hex_bytes val"
      by simp
    from Some True sc r b show ?thesis
      by (auto simp: get_UrlHexArg_def Let_def)
  qed
qed

text \<open>
  Claim C7, as amended. For a byte length \<open>n\<close> below \<open>2 ^ 31\<close> (so that \<open>n <<= 1\<close>
  does not wrap): \<open>get_UrlHexArg\<close> succeeds exactly when the argument is present, its
  text has \<open>2 * n\<close> characters and all of them are hex digits; it then yields \<open>n\<close>
  bytes; and the hex encoding of \<open>n\<close> bytes parses back to these bytes.
\<close>

theorem get_UrlHexArg_spec:
  assumes "unat n < 2 ^ 31"
  shows "(get_UrlHexArg url name n \<noteq> None \<longleftrightarrow>
            (\<exists>val. args url name = Some val \<and> length val = 2 * unat n
               \<and> (\<forall>c \<in> set val. ChFromHex c \<noteq> None)))
         \<and> (\<forall>out. get_UrlHexArg url name n = Some out \<longrightarrow> length out = unat n)
         \<and> (length bs = unat n \<and> args url name = Some (hex_encode bs) \<longrightarrow>
              get_UrlHexArg url name n = Some bs)"
proof -
  note sh = unat_shift1 [OF assms]
  have a: "get_UrlHexArg url name n \<noteq> None \<longleftrightarrow>
            (\<exists>val. args url name = Some val \<and> length val = 2 * unat n
               \<and> (\<forall>c \<in> set val. ChFromHex c \<noteq> None))"
    using get_UrlHexArg_Some [of url name n] sh by auto
  have b: "\<forall>out. get_UrlHexArg url name n = Some out \<longrightarrow> length out = unat n"
    using get_UrlHexArg_Some [of url name n] sh by (auto simp: length_hex_bytes)
  have c: "length bs = unat n \<and> args url name = Some (hex_encode bs) \<longrightarrow>
              get_UrlHexArg url name n = Some bs"
    using get_UrlHexArg_Some [of url name n bs] sh
    by (auto simp: length_hex_encode hex_bytes_encode dest: hex_encode_hex)
  from a b c show ?thesis by blast
qed

theorem get_UrlHexArg_spec_witness:
  "unat (2 :: u32) < 2 ^ 31
   \<and> get_UrlHexArg \<lparr>dir = block, args = [''kernel'' \<mapsto> ''0aff'']\<rparr> ''kernel'' 2 = Some [0x0A, 0xFF]
   \<and> get_UrlHexArg \<lparr>dir = block, args = [''kernel'' \<mapsto> ''0afg'']\<rparr> ''kernel'' 2 = None
   \<and> get_UrlHexArg \<lparr>dir = block, args = [''kernel'' \<mapsto> ''0af'']\<rparr> ''kernel'' 2 = None"
proof -
  have h: "unat (2 :: u32) < 2 ^ 31" by simp
  have e: "hex_encode [0x0A, 0xFF] = ''0aff''" by (simp add: hex_digit_def)
  have g: "ChFromHex CHR ''g'' = None" by (simp add: ChFromHex_def)
  from get_UrlHexArg_spec [OF h, of "\<lparr>dir = block, args = [''kernel'' \<mapsto> ''0aff'']\<rparr>" "''kernel''" "[0x0A, 0xFF]"]
    get_UrlHexArg_spec [OF h, of "\<lparr>dir = block, args = [''kernel'' \<mapsto> ''0afg'']\<rparr>" "''kernel''" "[]"]
    get_UrlHexArg_spec [OF h, of "\<lparr>dir = block, args = [''kernel'' \<mapsto> ''0af'']\<rparr>" "''kernel''" "[]"]
  show ?thesis using e g by auto
qed

text \<open>
  Claim C7 as stated fails for a byte length whose double does not fit 32 bits: for
  \<open>n = 2 ^ 31\<close> the text length asked for is 0, and the empty argument is accepted
  though its length is not \<open>2 * n\<close>.
\<close>

theorem get_UrlHexArg_wrap_counterexample:
  "get_UrlHexArg \<lparr>dir = block, args = [''kernel'' \<mapsto> []]\<rparr> ''kernel'' 0x80000000 = Some []
   \<and> length ([] :: string) \<noteq> 2 * unat (0x80000000 :: u32)"
  by (simp add: get_UrlHexArg_def Scan_def)

subsection \<open>Handling a request\<close>

lemma send_sent:
  "sent (snd (send N S c code m h)) =
     sent S @ (if create_response_ok N then
                 SendHeaders c code m h (sum_list (map length (body S))) (write_headers_ok N)
                 # (if write_headers_ok N \<and> 0 < sum_list (map length (body S))
                    then [SendBody c (body S) (write_body_ok N)] else [])
               else [])"
  by (simp add: send_def Let_def)

lemma send_fst:
  "fst (send N S c code m h) \<longleftrightarrow>
     code = 200 \<and> create_response_ok N \<and> write_headers_ok N
     \<and> (0 < sum_list (map length (body S)) \<longrightarrow> write_body_ok N)"
  by (cases "0 < sum_list (map length (body S))") (auto simp add: send_def Let_def simp del: sum_list_eq_0_iff)

lemma send_other:
  "connections (snd (send N S c code m h)) = connections S"
  "body (snd (send N S c code m h)) = []"
  "m_Mode (snd (send N S c code m h)) = m_Mode S"
  "acl (snd (send N S c code m h)) = acl S"
  "whitelist (snd (send N S c code m h)) = whitelist S"
  "timers (snd (send N S c code m h)) = timers S"
  by (simp_all add: send_def Let_def)

text \<open>The one call of \<open>send\<close> a request makes, and what \<open>on_request\<close> returns after it.\<close>

lemma on_request_shape:
  assumes "connections S i = Some conn"
  shows "\<exists>S1 code m h.
           connections S1 = connections S \<and> sent S1 = sent S
           \<and> (code = 200 \<longrightarrow> m = ''OK'')
           \<and> on_request X N S i (http_message path)
               = finish i (fst (send N S1 i code m h)) (snd (send N S1 i code m h))"
proof (cases "case parse_url X path of None \<Rightarrow> None
                | Some url \<Rightarrow> map_option (\<lambda>f. (f, url)) (pFn_of (dir url))")
  case None
  have "on_request X N S i (http_message path)
          = finish i (fst (send N S i 404 ''Not Found'' False)) (snd (send N S i 404 ''Not Found'' False))"
    using assms None by (simp add: on_request_def send_fst)
  then show ?thesis by (intro exI [of _ S] exI [of _ 404] exI [of _ "''Not Found''"] exI [of _ False]) simp
next
  case (Some p)
  obtain pFn url where p: "p = (pFn, url)" by (cases p)
  let ?S1 = "S\<lparr>m_Mode := mode_of url, body := []\<rparr>"
  show ?thesis
  proof (cases "check (localhost_ip X) (acl S) (ip (peer_address conn))")
    case False
    have "on_request X N S i (http_message path)
          = finish i (fst (send N ?S1 i 403 ''Forbidden'' False)) (snd (send N ?S1 i 403 ''Forbidden'' False))"
      using assms Some p False by (simp add: on_request_def send_fst Let_def)
    then show ?thesis
      by (intro exI [of _ ?S1] exI [of _ 403] exI [of _ "''Forbidden''"] exI [of _ False]) simp
  next
    case True
    show ?thesis
    proof (cases "case pFn X (mode_of url) url of Inl e \<Rightarrow> Inl e
                    | Inr j \<Rightarrow> render X (mode_of url) path j")
      case (Inl e)
      have "on_request X N S i (http_message path)
          = finish i (fst (send N ?S1 i 500 (''Internal error: '' @ e) False))
              (snd (send N ?S1 i 500 (''Internal error: '' @ e) False))"
        using assms Some p True Inl by (simp add: on_request_def send_fst Let_def)
      then show ?thesis
        by (intro exI [of _ ?S1] exI [of _ 500] exI [of _ "''Internal error: '' @ e"] exI [of _ False]) simp
    next
      case (Inr frag)
      let ?S2 = "?S1\<lparr>body := [frag]\<rparr>"
      have "on_request X N S i (http_message path)
          = finish i (fst (send N ?S2 i 200 ''OK'' (mode_of url = AutoHtml)))
              (snd (send N ?S2 i 200 ''OK'' (mode_of url = AutoHtml)))"
        using assms Some p True Inr by (simp add: on_request_def Let_def split: prod.splits)
      then show ?thesis
        by (intro exI [of _ ?S2] exI [of _ 200] exI [of _ "''OK''"] exI [of _ "mode_of url = AutoHtml"]) simp
    qed
  qed
qed

text \<open>
  Claim C2. A parsed request on a connection of the table is kept alive exactly when
  the events of this request show the headers of a response with status 200 written
  successfully and no body write that failed. When it is kept alive the table is
  unchanged and the connection is not shut down; otherwise the last event is the
  shutdown of the connection and its entry is gone from the table.
\<close>

theorem on_request_keepalive:
  assumes "connections S i = Some conn"
    and "on_request X N S i (http_message path) = (k, S')"
  shows "\<exists>evs. sent S' = sent S @ evs
      \<and> (k \<longleftrightarrow> (\<exists>h n. SendHeaders i 200 ''OK'' h n True \<in> set evs)
                \<and> (\<forall>b r. SendBody i b r \<in> set evs \<longrightarrow> r))
      \<and> (k \<longrightarrow> connections S' = connections S \<and> Shutdown i \<notin> set evs)
      \<and> (\<not> k \<longrightarrow> connections S' = (connections S)(i := None) \<and> evs \<noteq> []
                  \<and> last evs = Shutdown i)"
proof -
  from on_request_shape [OF assms(1), of X N path] obtain S1 code m h where
    c: "connections S1 = connections S" and s: "sent S1 = sent S"
    and m: "code = 200 \<longrightarrow> m = ''OK''"
    and r: "on_request X N S i (http_message path)
               = finish i (fst (send N S1 i code m h)) (snd (send N S1 i code m h))"
    by blast
  let ?hd = "if create_response_ok N then
                 SendHeaders i code m h (sum_list (map length (body S1))) (write_headers_ok N)
                 # (if write_headers_ok N \<and> 0 < sum_list (map length (body S1))
                    then [SendBody i (body S1) (write_body_ok N)] else [])
               else []"
  let ?evs = "?hd @ (if k then [] else [Shutdown i])"
  from r assms(2) have k: "k = fst (send N S1 i code m h)"
    by (auto simp: finish_def split: if_splits)
  from r assms(2) k have S': "S' = (if k then snd (send N S1 i code m h)
      else (snd (send N S1 i code m h))\<lparr>connections := (connections (snd (send N S1 i code m h)))(i := None),
             sent := sent (snd (send N S1 i code m h)) @ [Shutdown i]\<rparr>)"
    by (auto simp: finish_def split: if_splits)
  have 1: "sent S' = sent S @ ?evs"
    using S' s by (simp add: send_sent)
  have 2: "k \<longleftrightarrow> (\<exists>h n. SendHeaders i 200 ''OK'' h n True \<in> set ?evs)
                \<and> (\<forall>b r. SendBody i b r \<in> set ?evs \<longrightarrow> r)"
    using k m by (auto simp: send_fst)
  have 3: "k \<longrightarrow> connections S' = connections S \<and> Shutdown i \<notin> set ?evs"
    using S' c by (auto simp: send_other)
  have 4: "\<not> k \<longrightarrow> connections S' = (connections S)(i := None) \<and> ?evs \<noteq> []
                  \<and> last ?evs = Shutdown i"
    using S' c by (auto simp: send_other)
  from 1 2 3 4 show ?thesis by blast
qed




lemma conn0: "connections server0 (u64_of peer0) = Some \<lparr>conn_id = u64_of peer0, peer_address = peer0\<rparr>"
  by (simp add: server0_def)




theorem on_request_keepalive_witness:
  "connections server0 (u64_of peer0) = Some \<lparr>conn_id = u64_of peer0, peer_address = peer0\<rparr>
   \<and> on_request (ext0 JNull) net_ok server0 (u64_of peer0) (http_message ''status'') =
     (True, server0\<lparr>m_Mode := Legacy, body := [],
        sent := [SendHeaders (u64_of peer0) 200 ''OK'' False 2 True,
                 SendBody (u64_of peer0) [''{}''] True]\<rparr>)
   \<and> (\<exists>evs. [SendHeaders (u64_of peer0) 200 ''OK'' False 2 True,
                 SendBody (u64_of peer0) [''{}''] True] = sent server0 @ evs
          \<and> (\<exists>h n. SendHeaders (u64_of peer0) 200 ''OK'' h n True \<in> set evs)
          \<and> Shutdown (u64_of peer0) \<notin> set evs)"
proof -
  have r: "on_request (ext0 JNull) net_ok server0 (u64_of peer0) (http_message ''status'') =
     (True, server0\<lparr>m_Mode := Legacy, body := [],
        sent := [SendHeaders (u64_of peer0) 200 ''OK'' False 2 True,
                 SendBody (u64_of peer0) [''{}''] True]\<rparr>)"
    by (simp add: on_request_def conn0 ext0_def url0_def pFn_of_def mode_of_def check_def
      on_request_status_def render_def json2Msg_def send_def finish_def
      net_ok_def Let_def server0_def)
  from on_request_keepalive [OF conn0 r] conn0 r show ?thesis
    by auto
qed

subsection \<open>SubstituteArg\<close>

lemma strncmp_eq_prefix:
  "NUL \<notin> set k \<Longrightarrow> strncmp_eq s k (length k) = prefix k s"
proof (induction k arbitrary: s)
  case Nil
  show ?case by simp
next
  case (Cons c k)
  then have c: "c \<noteq> NUL" and k: "NUL \<notin> set k" by auto
  show ?case
  proof (cases s)
    case Nil
    with c show ?thesis by (simp add: c_at_def)
  next
    case (Cons x s')
    with c Cons.IH [OF k, of s'] show ?thesis by (auto simp: c_at_def)
  qed
qed

lemma prefix_before_sep:
  assumes "sep \<notin> set k"
  shows "prefix k (a @ sep # rst) \<longleftrightarrow> prefix k a"
proof
  assume p: "prefix k (a @ sep # rst)"
  show "prefix k a"
  proof (cases "length k \<le> length a")
    case True
    with p show ?thesis by (auto simp: prefix_def append_eq_append_conv_if)
       (metis append_eq_conv_conj take_append diff_is_0_eq' take0 append_Nil2)
  next
    case False
    then have "length a < length k" by simp
    with p have "k ! length a = sep"
      by (metis nth_append_length prefix_def nth_append)
    with \<open>length a < length k\<close> assms show ?thesis by (metis nth_mem)
  qed
next
  assume "prefix k a"
  then show "prefix k (a @ sep # rst)" by (simp add: prefix_prefix)
qed


lemma unat_Suc32: "unat (w :: u32) + 1 < 2 ^ 32 \<Longrightarrow> unat (w + 1) = unat w + 1"
  using unat_add_lem [of w 1] by simp

lemma takeWhile_sep: "sep \<notin> set a \<Longrightarrow> takeWhile (\<lambda>c. c \<noteq> sep) (a @ sep # rst) = a"
  by (induction a) auto

lemma takeWhile_nosep: "sep \<notin> set a \<Longrightarrow> takeWhile (\<lambda>c. c \<noteq> sep) a = a"
  by (induction a) auto

lemma seg_amp:
  assumes "CHR ''&'' \<notin> set a" and "iArg \<noteq> 0"
  shows "seg_len iArg (a @ CHR ''&'' # rst) = Suc (length a)"
    and "\<not> seg_end iArg (a @ CHR ''&'' # rst)"
    and "seg_len iArg a = length a"
    and "seg_end iArg a"
  using assms by (simp_all add: seg_len_def seg_end_def Let_def takeWhile_sep)

lemma loop_args:
  assumes "NUL \<notin> set sKey" and "CHR ''&'' \<notin> set sKey"
    and "\<forall>a \<in> set argv. CHR ''&'' \<notin> set a" and "argv = [] \<or> last argv \<noteq> []"
    and "0 < unat iArg" and "unat iArg + length (join_amp argv) < 2 ^ 32"
    and "0 < unat nArgs" and "unat nArgs + length (join_amp argv) < 2 ^ 32"
  shows "\<exists>r n b. SubstituteArg_loop sKey (join_amp argv) iArg sRes nArgs True = (r, n, b)
           \<and> (if \<not> b then r @ (if n \<noteq> 0 then ''&'' else ''?'') else r) @ kv
               = sRes @ join_amp (filter (\<lambda>a. \<not> prefix sKey a) argv @ [kv])"
  using assms
proof (induction argv arbitrary: iArg sRes nArgs rule: join_amp.induct)
  case 1
  show ?case by (auto simp: SubstituteArg_loop.simps)
next
  case (2 a)
  then have a: "a \<noteq> []" and amp: "CHR ''&'' \<notin> set a" by auto
  from 2 have i0: "iArg \<noteq> 0" by (simp add: unat_gt_0)
  from 2 a have n1: "nArgs + 1 \<noteq> 0"
    using unat_Suc32 [of nArgs] by (cases a) (auto simp: unat_gt_0 [symmetric])
  have m: "strncmp_eq a sKey (length sKey) = prefix sKey a"
    using 2 by (simp add: strncmp_eq_prefix)
  show ?case
    using a n1 m seg_amp(3,4) [OF amp i0]
    by (auto simp: SubstituteArg_loop.simps [of sKey a] SubstituteArg_loop.simps [of sKey "[]"])
next
  case (3 a b r)
  let ?rest = "join_amp (b # r)"
  have amp: "CHR ''&'' \<notin> set a" using 3 by simp
  from 3 have i0: "iArg \<noteq> 0" by (simp add: unat_gt_0)
  have m: "strncmp_eq (a @ CHR ''&'' # ?rest) sKey (length sKey) = prefix sKey a"
    using 3 by (simp add: strncmp_eq_prefix prefix_before_sep)
  have "unat iArg + 1 < 2 ^ 32" and "unat nArgs + 1 < 2 ^ 32"
    using "3.prems"(6,8) by simp_all
  then have i1: "unat (iArg + 1) = unat iArg + 1" and n1: "unat (nArgs + 1) = unat nArgs + 1"
    by (simp_all add: unat_Suc32)
  have pre: "\<forall>a \<in> set (b # r). CHR ''&'' \<notin> set a" "b # r = [] \<or> last (b # r) \<noteq> []"
    using 3 by auto
  have step: "SubstituteArg_loop sKey (join_amp (a # b # r)) iArg sRes nArgs True =
      (if \<not> prefix sKey a
       then SubstituteArg_loop sKey ?rest (iArg + 1) (sRes @ a @ ''&'') (nArgs + 1) True
       else SubstituteArg_loop sKey ?rest (iArg + 1) sRes nArgs True)"
    using m seg_amp(1,2) [OF amp i0, of ?rest]
    by (simp add: SubstituteArg_loop.simps [of sKey "a @ CHR ''&'' # ?rest"])
  show ?case
  proof (cases "prefix sKey a")
    case True
    have "0 < unat (iArg + 1)" "unat (iArg + 1) + length ?rest < 2 ^ 32"
      "unat nArgs + length ?rest < 2 ^ 32"
      using 3 i1 by auto
    from "3.IH" [OF "3.prems"(1,2) pre this(1,2) "3.prems"(7) this(3), of sRes] True step
    show ?thesis by simp
  next
    case False
    have "0 < unat (iArg + 1)" "unat (iArg + 1) + length ?rest < 2 ^ 32"
      "0 < unat (nArgs + 1)" "unat (nArgs + 1) + length ?rest < 2 ^ 32"
      using 3 i1 n1 by auto
    from "3.IH" [OF "3.prems"(1,2) pre this, of "sRes @ a @ ''&''"] False step
    show ?thesis by (cases "filter (\<lambda>a. \<not> prefix sKey a) (b # r)") auto
  qed
qed


text \<open>
  Claim C5, as amended. For a URL \<open>path?a1&...&an\<close> (no \<open>?\<close> in the path, no \<open>&\<close>
  inside an argument, the last argument not empty, shorter than \<open>2 ^ 32\<close>), a key
  without NUL, \<open>&\<close> and \<open>?\<close>, and a path that does not itself begin with
  \<open>key=\<close>: the result is \<open>path?\<close>, then the arguments that do not begin with
  \<open>key=\<close>, in their order and separated by \<open>&\<close>, then \<open>key=value\<close> as the last
  argument. So every other argument is kept as it is, every argument of that key is
  removed from its place, and the new pair always comes last.
\<close>

theorem SubstituteArg_query:
  assumes "NUL \<notin> set sKey" and "CHR ''&'' \<notin> set sKey" and "CHR ''?'' \<notin> set sKey"
    and "CHR ''?'' \<notin> set path" and "\<not> prefix (sKey @ ''='') path"
    and "\<forall>a \<in> set argv. CHR ''&'' \<notin> set a" and "argv = [] \<or> last argv \<noteq> []"
    and "length (path @ ''?'' @ join_amp argv) < 2 ^ 32"
  shows "SubstituteArg (path @ ''?'' @ join_amp argv) sKey sVal =
           path @ ''?'' @ join_amp (filter (\<lambda>a. \<not> prefix (sKey @ ''='') a) argv
                                     @ [sKey @ ''='' @ sVal])"
proof -
  let ?k = "sKey @ ''=''"
  let ?rest = "join_amp argv"
  have k: "NUL \<notin> set ?k" "CHR ''&'' \<notin> set ?k" "CHR ''?'' \<notin> set ?k"
    using assms(1-3) by (auto simp: NUL_def)
  have m: "strncmp_eq (path @ CHR ''?'' # ?rest) ?k (length ?k) = prefix ?k path"
    using strncmp_eq_prefix [OF k(1)] prefix_before_sep [OF k(3)] by simp
  have seg: "seg_len 0 (path @ CHR ''?'' # ?rest) = Suc (length path)"
    "\<not> seg_end 0 (path @ CHR ''?'' # ?rest)"
    using assms(4) by (simp_all add: seg_len_def seg_end_def Let_def takeWhile_sep)
  have step: "SubstituteArg_loop ?k (path @ CHR ''?'' # ?rest) 0 [] 0 False =
      SubstituteArg_loop ?k ?rest 1 (path @ ''?'') 1 True"
    using m seg assms(5)
    by (simp add: SubstituteArg_loop.simps [of ?k "path @ CHR ''?'' # ?rest"])
  have b: "0 < unat (1 :: u32)" "unat (1 :: u32) + length ?rest < 2 ^ 32"
    using assms(8) by auto
  from loop_args [OF k(1,2) assms(6,7) b b, of "path @ ''?''" "?k @ sVal"]
  obtain r n b where
    l: "SubstituteArg_loop ?k ?rest 1 (path @ ''?'') 1 True = (r, n, b)"
    and f: "(if \<not> b then r @ (if n \<noteq> 0 then ''&'' else ''?'') else r) @ ?k @ sVal
            = (path @ ''?'') @ join_amp (filter (\<lambda>a. \<not> prefix ?k a) argv @ [?k @ sVal])"
    by blast
  from step l f show ?thesis
    by (simp add: SubstituteArg_def Let_def)
qed

theorem SubstituteArg_query_witness:
  "SubstituteArg ''contract?htm=1&id=ab&hMax=100'' ''hMax'' ''50'' = ''contract?htm=1&id=ab&hMax=50''
   \<and> SubstituteArg ''block?a=1&b=2'' ''c'' ''3'' = ''block?a=1&b=2&c=3''
   \<and> SubstituteArg ''block?'' ''c'' ''3'' = ''block?c=3''"
proof -
  have 1: "''contract?htm=1&id=ab&hMax=100'' = ''contract'' @ ''?'' @ join_amp [''htm=1'', ''id=ab'', ''hMax=100'']"
    and 2: "''block?a=1&b=2'' = ''block'' @ ''?'' @ join_amp [''a=1'', ''b=2'']"
    and 3: "''block?'' = ''block'' @ ''?'' @ join_amp []"
    by simp_all
  have "SubstituteArg (''contract'' @ ''?'' @ join_amp [''htm=1'', ''id=ab'', ''hMax=100'']) ''hMax'' ''50''
        = ''contract?htm=1&id=ab&hMax=50''"
    by (subst SubstituteArg_query) (simp_all add: NUL_def)
  moreover have "SubstituteArg (''block'' @ ''?'' @ join_amp [''a=1'', ''b=2'']) ''c'' ''3'' = ''block?a=1&b=2&c=3''"
    by (subst SubstituteArg_query) (simp_all add: NUL_def)
  moreover have "SubstituteArg (''block'' @ ''?'' @ join_amp []) ''c'' ''3'' = ''block?c=3''"
    by (subst SubstituteArg_query) (simp_all add: NUL_def)
  ultimately show ?thesis by (simp only: 1 2 3) 
qed

text \<open>
  Claim C5 as stated fails: the pair of an existing key is not replaced in place but
  moved to the end; and a URL without a query string gets \<open>&\<close>, not \<open>?\<close>.
\<close>

theorem SubstituteArg_in_place_counterexample:
  "SubstituteArg ''block?a=1&b=2'' ''a'' ''5'' = ''block?b=2&a=5''
   \<and> SubstituteArg ''block?a=1&b=2'' ''a'' ''5'' \<noteq> ''block?a=5&b=2''
   \<and> SubstituteArg ''block'' ''a'' ''5'' = ''block&a=5''"
  by (simp add: SubstituteArg_def SubstituteArg_loop.simps seg_len_def seg_end_def c_at_def NUL_def Let_def)

subsection \<open>The depth guard and the expansion of amounts\<close>

lemma seq_exc_all_Inr:
  "(\<And>x. x \<in> set xs \<Longrightarrow> f x = Inr (g x)) \<Longrightarrow> seq_exc (map f xs) = Inr (map g xs)"
  by (induction xs) auto

lemma seq_exc_some_Inl:
  "(\<And>x. x \<in> set xs \<Longrightarrow> f x = Inl m \<or> (\<exists>v. f x = Inr v)) \<Longrightarrow> \<exists>x \<in> set xs. f x = Inl m
   \<Longrightarrow> seq_exc (map f xs) = Inl m"
proof (induction xs)
  case Nil
  then show ?case by simp
next
  case (Cons x xs)
  show ?case
  proof (cases "f x")
    case (Inl e)
    with Cons.prems(1) [of x] show ?thesis by auto
  next
    case (Inr v)
    with Cons.prems have "\<exists>x \<in> set xs. f x = Inl m" by auto
    with Cons.IH Cons.prems(1) have "seq_exc (map f xs) = Inl m" by auto
    with Inr show ?thesis by simp
  qed
qed

lemma foldr_max_le: "foldr max (map f xs) 0 \<le> (n :: nat) \<longleftrightarrow> (\<forall>x \<in> set xs. f x \<le> n)"
  by (induction xs) auto

lemma find_key_map:
  "find_key (map (\<lambda>(k, v). (k, f v)) kvs) k = map_option f (find_key kvs k)"
  by (induction kvs) (auto simp: find_key_def)

lemma expand_spec_JStr: "expand_spec X v = JStr s \<longleftrightarrow> v = JStr s"
  by (cases v) (auto split: option.splits)

lemma ReadAmount_expand: "ReadAmount X (expand_spec X v) = ReadAmount X v"
  by (cases v) (auto simp: ReadAmount_def split: option.splits)

lemma c_at_NUL_iff: "NUL \<notin> set t \<Longrightarrow> c_at t k = NUL \<longleftrightarrow> length t \<le> k"
  by (auto simp: c_at_def in_set_conv_nth)

lemma c_str_no_NUL: "NUL \<notin> set (c_str s)"
  by (auto simp: c_str_def dest: set_takeWhileD)


text \<open>The code's \<open>ReadAmount\<close> and \<open>chSign\<close> against the amount of the spec.\<close>

lemma amount_spec_text:
  assumes "NUL \<notin> set t"
  shows "(let (nLen, n) = ScanDecimal X (drop (length (sign_spec t)) t)
          in if length (drop (length (sign_spec t)) t) \<le> nLen then Some (sign_spec t, n) else None)
         = map_option (\<lambda>(n, chSign). (sign_str chSign, n))
             (let signed = (c_at t 0 = CHR ''-'' \<or> c_at t 0 = CHR ''+'');
                  chSign = (if signed then c_at t 0 else NUL);
                  sz' = (if signed then tl t else t);
                  (nLen, res) = ScanDecimal X sz'
              in if c_at sz' nLen = NUL then Some (res, chSign) else None)"
proof (cases t)
  case Nil
  then show ?thesis
    by (simp add: sign_spec_def c_at_def NUL_def sign_str_def split: prod.splits)
next
  case (Cons c r)
  with assms have r: "NUL \<notin> set r" and t: "NUL \<notin> set (c # r)" by auto
  show ?thesis
  proof (cases "c = CHR ''-'' \<or> c = CHR ''+''")
    case True
    then have "c \<noteq> NUL" by (auto simp: NUL_def)
    with True Cons r show ?thesis
      by (auto simp: sign_spec_def c_at_NUL_iff sign_str_def c_at_def [of "c # r" 0] Let_def
          split: prod.splits)
  next
    case False
    with Cons t show ?thesis
      by (auto simp: sign_spec_def c_at_NUL_iff sign_str_def c_at_def [of "c # r" 0] Let_def
          split: prod.splits)
  qed
qed

lemma amount_spec_ReadAmount:
  "amount_spec X v = map_option (\<lambda>(n, chSign). (sign_str chSign, n)) (ReadAmount X v)"
proof (cases v)
  case (JStr s)
  from amount_spec_text [OF c_str_no_NUL, of X s] JStr show ?thesis
    by (simp add: amount_spec_def ReadAmount_def Let_def)
qed (simp_all add: amount_spec_def ReadAmount_def sign_str_def)

lemma exp_amount_expand:
  "JObj (exp_amount X (map (\<lambda>(k, v). (k, expand_spec X v)) kvs)) = expand_spec X (JObj kvs)"
proof (cases "find_key kvs ''type''")
  case None
  then show ?thesis by (simp add: exp_amount_def amount_node_def find_key_map)
next
  case t: (Some objT)
  show ?thesis
  proof (cases "find_key kvs ''value''")
    case None
    with t show ?thesis by (simp add: exp_amount_def amount_node_def find_key_map)
  next
    case v: (Some objV)
    show ?thesis
    proof (cases "objT = JStr ''amount''")
      case True
      with t v show ?thesis
        by (auto simp: exp_amount_def amount_node_def find_key_map ReadAmount_expand
            amount_spec_ReadAmount split: option.splits)
    next
      case False
      then have "expand_spec X objT \<noteq> JStr ''amount''" by (simp add: expand_spec_JStr)
      with False t v show ?thesis
        by (cases "expand_spec X objT")
           (auto simp: exp_amount_def amount_node_def find_key_map)
    qed
  qed
qed

lemma depth_step:
  assumes "unat (d :: u32) \<le> 128"
  shows "(d + 1 > 128) \<longleftrightarrow> unat d = 128" and "unat (d + 1) = unat d + 1"
proof -
  from assms show u: "unat (d + 1) = unat d + 1" by (simp add: unat_Suc32)
  have "(d + 1 > 128) \<longleftrightarrow> unat (d + 1) > 128" by (simp add: word_less_nat_alt)
  with u assms show "(d + 1 > 128) \<longleftrightarrow> unat d = 128" by auto
qed

lemma jsonExp_char:
  "unat d \<le> 128 \<Longrightarrow>
   jsonExp X j d = (if unat d + depth j \<le> 128 then Inr (expand_spec X j)
                    else Inl ''recursion too deep'')"
proof (induction X j d rule: jsonExp.induct)
  case (1 X xs nDepth)
  note st = depth_step [OF "1.prems"]
  show ?case
  proof (cases "unat nDepth = 128")
    case True
    with st show ?thesis by simp
  next
    case False
    with "1.prems" st have le: "unat (nDepth + 1) \<le> 128" and ng: "\<not> nDepth + 1 > 128" by auto
    have ih: "\<And>x. x \<in> set xs \<Longrightarrow> jsonExp X x (nDepth + 1) =
        (if unat (nDepth + 1) + depth x \<le> 128 then Inr (expand_spec X x) else Inl ''recursion too deep'')"
      using "1.IH" [OF ng _ le] by simp
    show ?thesis
    proof (cases "\<forall>x \<in> set xs. unat (nDepth + 1) + depth x \<le> 128")
      case True
      then have "seq_exc (map (\<lambda>x. jsonExp X x (nDepth + 1)) xs) = Inr (map (expand_spec X) xs)"
        using ih by (intro seq_exc_all_Inr) simp
      moreover have "unat nDepth + depth (JArr xs) \<le> 128"
        using True st(2) foldr_max_le [of depth xs "128 - unat (nDepth + 1)"] le by auto
      ultimately show ?thesis using ng by simp
    next
      case False
      then have "seq_exc (map (\<lambda>x. jsonExp X x (nDepth + 1)) xs) = Inl ''recursion too deep''"
        using ih by (intro seq_exc_some_Inl) auto
      moreover have "\<not> unat nDepth + depth (JArr xs) \<le> 128"
        using False st(2) foldr_max_le [of depth xs "128 - unat (nDepth + 1)"] le by auto
      ultimately show ?thesis using ng by simp
    qed
  qed
next
  case (2 X kvs nDepth)
  note st = depth_step [OF "2.prems"]
  let ?f = "\<lambda>(k, v). case jsonExp X v (nDepth + 1) of Inl e \<Rightarrow> Inl e | Inr v' \<Rightarrow> Inr (k, v')"
  show ?case
  proof (cases "unat nDepth = 128")
    case True
    with st show ?thesis by simp
  next
    case False
    with "2.prems" st have le: "unat (nDepth + 1) \<le> 128" and ng: "\<not> nDepth + 1 > 128" by auto
    have ih: "\<And>k v. (k, v) \<in> set kvs \<Longrightarrow> jsonExp X v (nDepth + 1) =
        (if unat (nDepth + 1) + depth v \<le> 128 then Inr (expand_spec X v) else Inl ''recursion too deep'')"
      using "2.IH" [OF ng _ _ le] by simp
    show ?thesis
    proof (cases "\<forall>(k, v) \<in> set kvs. unat (nDepth + 1) + depth v \<le> 128")
      case True
      then have "seq_exc (map ?f kvs) = Inr (map (\<lambda>(k, v). (k, expand_spec X v)) kvs)"
        using ih by (intro seq_exc_all_Inr) auto
      moreover have "unat nDepth + depth (JObj kvs) \<le> 128"
        using True st(2) foldr_max_le [of "\<lambda>(k, v). depth v" kvs "128 - unat (nDepth + 1)"] le
        by auto
      ultimately show ?thesis using ng exp_amount_expand [of X kvs] by simp
    next
      case False
      then obtain k v where kv: "(k, v) \<in> set kvs" "\<not> unat (nDepth + 1) + depth v \<le> 128"
        by auto
      have a: "\<And>x. x \<in> set kvs \<Longrightarrow> ?f x = Inl ''recursion too deep'' \<or> (\<exists>w. ?f x = Inr w)"
        using ih by (auto split: sum.splits)
      have b: "\<exists>x \<in> set kvs. ?f x = Inl ''recursion too deep''"
        using kv ih [OF kv(1)] by (intro bexI [of _ "(k, v)"]) auto
      have "seq_exc (map ?f kvs) = Inl ''recursion too deep''"
        using a b by (rule seq_exc_some_Inl)
      moreover have "\<not> unat nDepth + depth (JObj kvs) \<le> 128"
        using False st(2) foldr_max_le [of "\<lambda>(k, v). depth v" kvs "128 - unat (nDepth + 1)"] le
        by auto
      ultimately show ?thesis using ng by simp
    qed
  qed
qed (use depth_step in \<open>auto\<close>)

lemma foldr_max_gt:
  assumes "n < a + foldr max (map f xs) 0" and "a \<le> (n :: nat)"
  shows "\<exists>x \<in> set xs. n < a + f x"
proof (rule ccontr)
  assume "\<not> (\<exists>x \<in> set xs. n < a + f x)"
  then have "\<forall>x \<in> set xs. f x \<le> n - a" by auto
  then have "foldr max (map f xs) 0 \<le> n - a" by (simp add: foldr_max_le)
  with assms show False by simp
qed

lemma OnElems_fail:
  "\<exists>x \<in> set xs. \<exists>e. OnObjInternal X url tbl d x = Inl e \<Longrightarrow> \<exists>e. OnElems X url tbl d i xs = Inl e"
proof (induction xs arbitrary: i)
  case Nil
  then show ?case by simp
next
  case (Cons x xs)
  show ?case
  proof (cases "OnObjInternal X url tbl d x")
    case (Inl e)
    then show ?thesis by simp
  next
    case (Inr s)
    with Cons.prems have "\<exists>x \<in> set xs. \<exists>e. OnObjInternal X url tbl d x = Inl e" by auto
    from Cons.IH [OF this, of "i + 1"] Inr show ?thesis by auto
  qed
qed

lemma OnMembers_fail:
  "\<exists>(k, v) \<in> set kvs. \<exists>e. OnObjInternal X url tbl d v = Inl e \<Longrightarrow> \<exists>e. OnMembers X url tbl d kvs = Inl e"
proof (induction kvs)
  case Nil
  then show ?case by simp
next
  case (Cons kv kvs)
  obtain k v where kv: "kv = (k, v)" by (cases kv)
  show ?case
  proof (cases "OnObjInternal X url tbl d v")
    case (Inl e)
    with kv show ?thesis by simp
  next
    case (Inr s)
    with Cons.prems kv have "\<exists>(k, v) \<in> set kvs. \<exists>e. OnObjInternal X url tbl d v = Inl e" by auto
    from Cons.IH [OF this] Inr kv show ?thesis by auto
  qed
qed

lemma OnTableRow_fail:
  "\<exists>c \<in> set cs. \<exists>e. OnObjInternal X url tbl d c = Inl e \<Longrightarrow> \<exists>e. OnTableRow X url tbl d n j cs = Inl e"
proof (induction cs arbitrary: j)
  case Nil
  then show ?case by simp
next
  case (Cons c cs)
  show ?case
  proof (cases "OnObjInternal X url tbl d c")
    case (Inl e)
    then show ?thesis by simp
  next
    case (Inr s)
    with Cons.prems have "\<exists>c \<in> set cs. \<exists>e. OnObjInternal X url tbl d c = Inl e" by auto
    from Cons.IH [OF this, of "j + 1"] Inr show ?thesis by auto
  qed
qed

lemma OnTableData_fail:
  "\<exists>y \<in> set (concat (map row_items rows)). \<exists>e. OnObjInternal X url tbl d y = Inl e
   \<Longrightarrow> \<exists>e. OnTableData X url tbl d rows = Inl e"
proof (induction rows)
  case Nil
  then show ?case by simp
next
  case (Cons x rows)
  let ?row = "case x of
                JArr cells \<Rightarrow>
                  (case OnTableRow X url tbl d (length cells) 0 cells of
                     Inl e \<Rightarrow> Inl e
                   | Inr s \<Rightarrow> Inr (''<tr>'' @ s @ ''</tr>'' @ nl))
              | _ \<Rightarrow> OnObjInternal X url tbl d x"
  show ?case
  proof (cases "\<exists>y \<in> set (row_items x). \<exists>e. OnObjInternal X url tbl d y = Inl e")
    case True
    have "\<exists>e. ?row = Inl e"
    proof (cases x)
      case (JArr cells)
      with True OnTableRow_fail [of cells X url tbl d "length cells" 0] show ?thesis
        by (auto simp: row_items_def)
    qed (use True in \<open>auto simp: row_items_def\<close>)
    then show ?thesis by auto
  next
    case False
    with Cons.prems have "\<exists>y \<in> set (concat (map row_items rows)). \<exists>e. OnObjInternal X url tbl d y = Inl e"
      by auto
    from Cons.IH [OF this] show ?thesis by (cases ?row) auto
  qed
qed

lemma OnObjSpecial_tag:
  "tag_of X kvs = NotTagged \<Longrightarrow> OnObjSpecial X url tbl d kvs = Inr None"
  "tag_of X kvs = Rows rows \<Longrightarrow> \<forall>t. \<exists>e. OnTableData X url t d rows = Inl e
     \<Longrightarrow> \<exists>e. OnObjSpecial X url tbl d kvs = Inl e"
proof -
  show "tag_of X kvs = NotTagged \<Longrightarrow> OnObjSpecial X url tbl d kvs = Inr None"
    by (auto simp: tag_of_def split: option.splits json.splits if_splits)
  assume r: "tag_of X kvs = Rows rows" and f: "\<forall>t. \<exists>e. OnTableData X url t d rows = Inl e"
  from f obtain e1 e2 where
    "OnTableData X url tbl d rows = Inl e1" "OnTableData X url (tbl + 1) d rows = Inl e2" by blast
  with r show "\<exists>e. OnObjSpecial X url tbl d kvs = Inl e"
    by (auto simp: tag_of_def split: option.splits json.splits if_splits)
qed

lemma OnObjInternal_hdeep:
  "unat d \<le> 128 \<Longrightarrow> 128 < unat d + hdepth X j \<Longrightarrow> \<exists>e. OnObjInternal X url tbl d j = Inl e"
proof (induction X j arbitrary: d tbl rule: hdepth.induct)
  case (1 X xs)
  note st = depth_step [OF "1.prems"(1)]
  show ?case
  proof (cases "unat d = 128")
    case True
    with st show ?thesis by simp
  next
    case False
    with "1.prems" st have le: "unat (d + 1) \<le> 128" and ng: "\<not> d + 1 > 128" by auto
    from "1.prems"(2) st(2) have "128 < unat (d + 1) + foldr max (map (hdepth X) xs) 0" by simp
    from foldr_max_gt [OF this le] obtain x where x: "x \<in> set xs" "128 < unat (d + 1) + hdepth X x"
      by auto
    from "1.IH" [OF x(1) le x(2), of tbl] x(1) have "\<exists>x \<in> set xs. \<exists>e. OnObjInternal X url tbl (d + 1) x = Inl e"
      by auto
    from OnElems_fail [OF this, of 0] ng show ?thesis by auto
  qed
next
  case (2 X kvs)
  note st = depth_step [OF "2.prems"(1)]
  show ?case
  proof (cases "unat d = 128")
    case True
    with st show ?thesis by simp
  next
    case False
    with "2.prems" st have le: "unat (d + 1) \<le> 128" and ng: "\<not> d + 1 > 128" by auto
    show ?thesis
    proof (cases "tag_of X kvs")
      case Leaf
      with "2.prems" False show ?thesis by simp
    next
      case NotTagged
      with "2.prems"(2) st(2)
      have "128 < unat (d + 1) + foldr max (map (\<lambda>(k, v). hdepth X v) kvs) 0" by simp
      from foldr_max_gt [OF this le] obtain k v where
        kv: "(k, v) \<in> set kvs" "128 < unat (d + 1) + hdepth X v" by auto
      from "2.IH"(1) [OF NotTagged kv(1) refl le kv(2), of tbl] kv(1)
      have "\<exists>(k, v) \<in> set kvs. \<exists>e. OnObjInternal X url tbl (d + 1) v = Inl e" by auto
      from OnMembers_fail [OF this] OnObjSpecial_tag(1) [OF NotTagged, of url tbl "d + 1"] ng
      show ?thesis by (auto simp del: OnObjSpecial.simps)
    next
      case (Rows rows)
      with "2.prems"(2) st(2)
      have "128 < unat (d + 1) + foldr max (map (hdepth X) (concat (map row_items rows))) 0" by simp
      from foldr_max_gt [OF this le] obtain y where
        y: "y \<in> set (concat (map row_items rows))" "128 < unat (d + 1) + hdepth X y" by auto
      have "\<forall>t. \<exists>e. OnTableData X url t (d + 1) rows = Inl e"
      proof
        fix t
        from "2.IH"(2) [OF Rows y(1) le y(2), of t] y(1)
        have "\<exists>y \<in> set (concat (map row_items rows)). \<exists>e. OnObjInternal X url t (d + 1) y = Inl e"
          by blast
        then show "\<exists>e. OnTableData X url t (d + 1) rows = Inl e" by (rule OnTableData_fail)
      qed
      from OnObjSpecial_tag(2) [OF Rows this, of tbl] ng
      show ?thesis by (auto simp del: OnObjSpecial.simps)
    qed
  qed
qed (use depth_step in \<open>auto\<close>)













lemma on_request_try_fails:
  assumes "connections S i = Some conn" and "parse_url X path = Some url"
    and "pFn_of (dir url) = Some pFn"
    and "check (localhost_ip X) (acl S) (ip (peer_address conn))"
    and "pFn X (mode_of url) url = Inr j" and "render X (mode_of url) path j = Inl e"
  shows "on_request X N S i (http_message path) =
           (False, S\<lparr>m_Mode := mode_of url, body := [],
                      sent := sent S
                        @ (if create_response_ok N
                           then [SendHeaders i 500 (''Internal error: '' @ e) False 0 (write_headers_ok N)]
                           else [])
                        @ [Shutdown i],
                      connections := (connections S)(i := None)\<rparr>)"
  using assms by (simp add: on_request_def Let_def send_def finish_def)

lemma render_deep:
  "128 < depth j \<Longrightarrow> render X ExplicitType path j = Inl ''recursion too deep''"
  "128 < hdepth X j \<Longrightarrow> \<exists>e. render X AutoHtml path j = Inl e"
proof -
  assume "128 < depth j"
  then have "jsonExp X j 0 = Inl ''recursion too deep''"
    using jsonExp_char [of 0 X j] by simp
  then show "render X ExplicitType path j = Inl ''recursion too deep''"
    by (simp add: render_def)
next
  assume "128 < hdepth X j"
  then have "\<exists>e. OnObjInternal X path 0 0 j = Inl e"
    using OnObjInternal_hdeep [of 0 X j path 0] by simp
  then show "\<exists>e. render X AutoHtml path j = Inl e"
    by (auto simp: render_def Convert_def)
qed

text \<open>
  Claim C3, as amended. For a request of a permitted peer whose handler returned the
  document \<open>j\<close>: whenever the rendering fails, the one response written is the
  status 500 with the failure's message and an empty body, and the connection is
  closed, so that no body goes out under a status 200; and the rendering does fail
  when the mode is \<open>exp_am\<close> and \<open>j\<close> is nested deeper than 128 (with the message
  \<open>recursion too deep\<close>), and when the mode is HTML and \<open>j\<close> is nested deeper than
  128 along the nodes the converter walks.
\<close>

theorem deep_document_is_500:
  assumes "connections S i = Some conn" and "parse_url X path = Some url"
    and "pFn_of (dir url) = Some pFn"
    and "check (localhost_ip X) (acl S) (ip (peer_address conn))"
    and "pFn X (mode_of url) url = Inr j"
  shows "(render X (mode_of url) path j = Inl e \<longrightarrow>
            on_request X N S i (http_message path) =
              (False, S\<lparr>m_Mode := mode_of url, body := [],
                         sent := sent S
                           @ (if create_response_ok N
                              then [SendHeaders i 500 (''Internal error: '' @ e) False 0
                                      (write_headers_ok N)]
                              else [])
                           @ [Shutdown i],
                         connections := (connections S)(i := None)\<rparr>))
         \<and> (mode_of url = ExplicitType \<and> 128 < depth j \<longrightarrow>
              render X (mode_of url) path j = Inl ''recursion too deep'')
         \<and> (mode_of url = AutoHtml \<and> 128 < hdepth X j \<longrightarrow>
              (\<exists>e'. render X (mode_of url) path j = Inl e'))"
  using on_request_try_fails [OF assms, of e N]
    render_deep [where j = j and X = X and path = path]
  by auto

lemma depth_nest: "depth (nest n) = Suc n"
  by (induction n) auto

lemma hdepth_nest: "hdepth X (nest n) = Suc n"
  by (induction n) auto

theorem deep_document_is_500_witness:
  "128 < depth (nest 130) \<and> 128 < hdepth (ext0 (nest 130)) (nest 130)
   \<and> on_request (ext0 (nest 130)) net_ok server0 (u64_of peer0) (http_message ''status?exp_am=1'') =
     (False, server0\<lparr>m_Mode := ExplicitType, body := [],
        sent := [SendHeaders (u64_of peer0) 500 ''Internal error: recursion too deep'' False 0 True,
                 Shutdown (u64_of peer0)],
        connections := (connections server0)(u64_of peer0 := None)\<rparr>)
   \<and> (\<exists>e. on_request (ext0 (nest 130)) net_ok server0 (u64_of peer0) (http_message ''status?htm=1'') =
     (False, server0\<lparr>m_Mode := AutoHtml, body := [],
        sent := [SendHeaders (u64_of peer0) 500 (''Internal error: '' @ e) False 0 True,
                 Shutdown (u64_of peer0)],
        connections := (connections server0)(u64_of peer0 := None)\<rparr>))"
proof -
  let ?X = "ext0 (nest 130)"
  let ?u1 = "\<lparr>dir = status, args = [''exp_am'' \<mapsto> ''1'']\<rparr>"
  let ?u2 = "\<lparr>dir = status, args = [''htm'' \<mapsto> ''1'']\<rparr>"
  have d: "128 < depth (nest 130)" "128 < hdepth ?X (nest 130)"
    by (simp_all add: depth_nest hdepth_nest)
  have p1: "parse_url ?X ''status?exp_am=1'' = Some ?u1"
    and p2: "parse_url ?X ''status?htm=1'' = Some ?u2"
    by (simp_all add: ext0_def url0_def)
  have f1: "pFn_of (dir ?u1) = Some on_request_status" and f2: "pFn_of (dir ?u2) = Some on_request_status"
    by (simp_all add: pFn_of_def)
  have m1: "mode_of ?u1 = ExplicitType" and m2: "mode_of ?u2 = AutoHtml"
    by (simp_all add: mode_of_def)
  have k: "check (localhost_ip ?X) (acl server0)
             (ip (peer_address \<lparr>conn_id = u64_of peer0, peer_address = peer0\<rparr>))"
    by (simp add: check_def server0_def)
  have h1: "on_request_status ?X (mode_of ?u1) ?u1 = Inr (nest 130)"
    and h2: "on_request_status ?X (mode_of ?u2) ?u2 = Inr (nest 130)"
    by (simp_all add: on_request_status_def ext0_def)
  have s: "sent server0 = []" by (simp add: server0_def)
  from deep_document_is_500 [OF conn0 p2 f2 k h2] d(2) m2
  obtain e where e: "render ?X AutoHtml ''status?htm=1'' (nest 130) = Inl e" by auto
  from deep_document_is_500 [OF conn0 p1 f1 k h1, where e = "''recursion too deep''" and N = net_ok]
       deep_document_is_500 [OF conn0 p2 f2 k h2, where e = e and N = net_ok]
       d m1 m2 e s
  show ?thesis by (auto simp: net_ok_def)
qed

lemma depth_deep_th: "depth deep_th = 132"
  by (simp add: deep_th_def depth_nest)

text \<open>
  Claim C3 as stated fails in HTML mode: the members of a recognised tagged node are
  not walked, so the header node \<open>deep_th\<close>, of depth 132, is rendered and answered
  with status 200.
\<close>

theorem deep_tagged_html_counterexample:
  "128 < depth deep_th
   \<and> on_request (ext0 deep_th) net_ok server0 (u64_of peer0) (http_message ''status?htm=1'') =
     (True, server0\<lparr>m_Mode := AutoHtml, body := [],
        sent := [SendHeaders (u64_of peer0) 200 ''OK'' True
                   (length (html_head @ ''<h3 align=center>x</h3>'' @ html_tail)) True,
                 SendBody (u64_of peer0) [html_head @ ''<h3 align=center>x</h3>'' @ html_tail] True]\<rparr>)"
proof -
  have c: "Convert (ext0 deep_th) ''status?htm=1'' deep_th
             = Inr (html_head @ ''<h3 align=center>x</h3>'' @ html_tail)"
    by (simp add: Convert_def deep_th_def find_key_def Encode_def szSubst_def)
  have l: "0 < length (html_head @ ''<h3 align=center>x</h3>'' @ html_tail)" by simp
  have r: "on_request (ext0 deep_th) net_ok server0 (u64_of peer0) (http_message ''status?htm=1'') =
     (True, server0\<lparr>m_Mode := AutoHtml, body := [],
        sent := [SendHeaders (u64_of peer0) 200 ''OK'' True
                   (length (html_head @ ''<h3 align=center>x</h3>'' @ html_tail)) True,
                 SendBody (u64_of peer0) [html_head @ ''<h3 align=center>x</h3>'' @ html_tail] True]\<rparr>)"
    using c l
    by (simp add: on_request_def ext0_def url0_def pFn_of_def mode_of_def check_def
        on_request_status_def render_def send_def finish_def net_ok_def Let_def server0_def
        del: length_append append_assoc)
  from r depth_deep_th show ?thesis by simp
qed

end
